theory Spec2Isabelle
  imports Main
begin

section \<open>Gitpod task terminals: data model\<close>

text \<open>
  The development follows \<^verbatim>\<open>gitpod-task-contribution.ts\<close>. Strings are
  \<^typ>\<open>string\<close>; a JavaScript value that may be \<^verbatim>\<open>undefined\<close> is an
  \<^typ>\<open>'a option\<close>; an object with identity (a terminal widget) is referred to by a
  natural number and its fields live in a table of the world.
\<close>

text \<open>
  Modelled from the spec: the declarations of \<^verbatim>\<open>GitpodTaskState\<close> and
  \<^verbatim>\<open>GitpodTask\<close> live in \<^verbatim>\<open>../common/gitpod-task-protocol\<close>, which is not
  part of the sources at hand. The spec gives a task as
  \<^verbatim>\<open>{ id, state: one of {RUNNING, CLOSED, ...other non-terminal states}, terminal:
  optional remote-terminal-id, presentation: optional { name, openIn, openMode } }\<close>.
  \<open>OPENING\<close> stands for the other, non-terminal states.
\<close>

datatype GitpodTaskState = OPENING | RUNNING | CLOSED

record Presentation =
  name :: string
  openIn :: "string option"
  openMode :: "string option"

record GitpodTask =
  task_id :: string
  task_state :: GitpodTaskState
  task_terminal :: "string option"
  task_presentation :: "Presentation option"

subsection \<open>Terminal identifiers\<close>

definition idPrefix :: string where
  "idPrefix = ''gitpod-task-terminal''"

definition toTerminalId :: "string \<Rightarrow> string" where
  "toTerminalId i = idPrefix @ '':'' @ i"

text \<open>
  \<^verbatim>\<open>String.prototype.split\<close> with a one-character separator: the pieces between
  the occurrences of the separator, so the result is never empty.
\<close>

fun split :: "char \<Rightarrow> string \<Rightarrow> string list" where
  "split c [] = [[]]"
| "split c (x # xs) =
     (if x = c then [] # split c xs
      else (case split c xs of
              [] \<Rightarrow> [[x]]
            | y # ys \<Rightarrow> (x # y) # ys))"

text \<open>Indexing a JavaScript array: \<^verbatim>\<open>undefined\<close> out of range.\<close>

definition at_index :: "'a list \<Rightarrow> nat \<Rightarrow> 'a option" where
  "at_index xs i = (if i < length xs then Some (xs ! i) else None)"

text \<open>
  \<^verbatim>\<open>getTaskId\<close> reads only the \<^verbatim>\<open>id\<close> of the terminal it is given, so the
  model takes that string.
\<close>

definition getTaskId :: "string \<Rightarrow> string option" where
  "getTaskId terminal_id = at_index (split CHR '':'' terminal_id) 1"

text \<open>
  The part of a string beyond the first occurrence of the separator.
\<close>

definition beyond_first :: "char \<Rightarrow> string \<Rightarrow> string" where
  "beyond_first c s = tl (dropWhile (\<lambda>x. x \<noteq> c) s)"

subsection \<open>Terminal surfaces and the world\<close>

text \<open>
  A terminal widget is an object with identity: a reference \<open>wref\<close> into the table
  \<open>widgets\<close>. Besides the fields of the surface the record holds the variables that the
  \<^verbatim>\<open>onWillCreateWidget\<close> handler closes over for this terminal
  (\<^verbatim>\<open>starting\<close>, \<^verbatim>\<open>attachingToTask\<close>, \<^verbatim>\<open>task\<close>), and the number of
  promises of the surface's own \<^verbatim>\<open>start\<close> and of \<^verbatim>\<open>server.attach\<close> that
  were handed out for it and have not settled yet. \<open>unplaceable\<close> is state of the UI
  shell: whether \<^verbatim>\<open>activateTerminal\<close> throws when asked to place this widget.
\<close>

type_synonym wref = nat

record Widget =
  wid :: string
  kind :: string
  title :: string
  terminalId :: int
  isDisposed :: bool
  unplaceable :: bool
  starting :: bool
  attachingToTask :: bool
  task :: "GitpodTask option"
  startsInFlight :: nat
  attachesInFlight :: nat

datatype error =
    AlreadyStarting string
  | AlreadyAttaching string
  | TypeError
  | Failure string

type_synonym 'a outcome = "error + 'a"

record TerminalOptions =
  opt_id :: "string option"
  opt_kind :: "string option"
  opt_title :: "string option"
  opt_useServerTitle :: "bool option"

record Placement =
  place_ref :: "wref option"
  place_area :: string
  place_mode :: string

text \<open>
  What the code asks of its collaborators, in the order it asks. \<open>ApplyBatch\<close> and
  \<open>LayoutResolved\<close> are not calls: they mark in the same sequence the entry of
  \<^verbatim>\<open>updateTerminals\<close> and the call \<^verbatim>\<open>pendingInitializeLayout.resolve()\<close>.
\<close>

datatype effect =
    Start wref "int option"
  | Attach wref int string
  | Dispose wref
  | SurfaceAttachTerminal wref int
  | CreateTerminal wref
  | NewTerminal TerminalOptions
  | ActivateTerminal wref Placement
  | OpenTerminal wref
  | ConsoleError string error
  | ApplyBatch "GitpodTask list"
  | LayoutResolved

record World =
  widgets :: "wref \<Rightarrow> Widget"
  nextRef :: wref
  allTerminals :: "wref list"
  taskTerminals :: "string \<Rightarrow> wref option"
  effects :: "effect list"

definition modify :: "wref \<Rightarrow> (Widget \<Rightarrow> Widget) \<Rightarrow> World \<Rightarrow> World" where
  "modify t f w = w\<lparr>widgets := (widgets w)(t := f (widgets w t))\<rparr>"

definition emit :: "effect \<Rightarrow> World \<Rightarrow> World" where
  "emit e w = w\<lparr>effects := effects w @ [e]\<rparr>"

text \<open>JavaScript truthiness of an optional string: defined and not empty.\<close>

definition truthy :: "string option \<Rightarrow> bool" where
  "truthy v = (case v of None \<Rightarrow> False | Some s \<Rightarrow> s \<noteq> [])"

text \<open>\<^verbatim>\<open>a || d\<close> on an optional string.\<close>

definition or_else :: "string option \<Rightarrow> string \<Rightarrow> string" where
  "or_else v d = (case v of None \<Rightarrow> d | Some s \<Rightarrow> if s = [] then d else s)"

text \<open>
  \<^verbatim>\<open>GitpodTaskTerminalWidget.is\<close>. The table \<open>widgets\<close> holds terminal widgets of
  the class \<^verbatim>\<open>GitpodTerminalWidget\<close> only, so the test is the one on \<open>kind\<close>.
\<close>

definition is_task_terminal :: "Widget \<Rightarrow> bool" where
  "is_task_terminal x = (kind x = ''gitpod-task'')"

subsection \<open>The surface's own operations\<close>

text \<open>
  The operations of the terminal surface and of the task server are outside the
  repository. The model records that they were called; what they answer arrives later as
  an event (a signal of the surface, the settling of a promise).

  \<open>surface_start\<close> is the surface's own \<^verbatim>\<open>start(id)\<close>, \<open>server_attach\<close> is
  \<^verbatim>\<open>this.server.attach(params)\<close>: each returns a promise that is pending at first.
\<close>

definition surface_start :: "wref \<Rightarrow> int option \<Rightarrow> World \<Rightarrow> World" where
  "surface_start t i w =
     modify t (\<lambda>x. x\<lparr>startsInFlight := Suc (startsInFlight x)\<rparr>) (emit (Start t i) w)"

definition server_attach :: "wref \<Rightarrow> int \<times> string \<Rightarrow> World \<Rightarrow> World" where
  "server_attach t params w =
     modify t (\<lambda>x. x\<lparr>attachesInFlight := Suc (attachesInFlight x)\<rparr>)
       (emit (Attach t (fst params) (snd params)) w)"

text \<open>
  The listener of lines 64 to 66, \<^verbatim>\<open>() => this.taskTerminals.delete(terminal.id)\<close>.
\<close>

definition onDidDispose :: "wref \<Rightarrow> World \<Rightarrow> World" where
  "onDidDispose t w = w\<lparr>taskTerminals := (taskTerminals w)(wid (widgets w t) := None)\<rparr>"

text \<open>
  \<^verbatim>\<open>terminal.dispose()\<close>: disposing a widget twice does nothing the second time; the
  first time the widget leaves the shell and its dispose listeners run. Only task
  terminals carry the listener above.
\<close>

definition dispose :: "wref \<Rightarrow> World \<Rightarrow> World" where
  "dispose t w =
     (let w1 = emit (Dispose t) w in
      if isDisposed (widgets w1 t) then w1
      else
        (let w2 = modify t (\<lambda>x. x\<lparr>isDisposed := True\<rparr>) w1;
             w3 = w2\<lparr>allTerminals := removeAll t (allTerminals w2)\<rparr>
         in if is_task_terminal (widgets w3 t) then onDidDispose t w3 else w3))"

subsection \<open>The closures installed on a task terminal\<close>

text \<open>Lines 77 to 84: the wrapper around the surface's \<^verbatim>\<open>start\<close>.\<close>

definition start :: "wref \<Rightarrow> int option \<Rightarrow> World \<Rightarrow> unit outcome \<times> World" where
  "start t i w =
     (if starting (widgets w t) then (Inl (AlreadyStarting (wid (widgets w t))), w)
      else (Inr (), surface_start t i (modify t (\<lambda>x. x\<lparr>starting := True\<rparr>) w)))"

text \<open>
  A call \<^verbatim>\<open>terminal.start(id)\<close> from anywhere: a task terminal carries the wrapper,
  any other terminal the surface's own method.
\<close>

definition call_start :: "wref \<Rightarrow> int option \<Rightarrow> World \<Rightarrow> unit outcome \<times> World" where
  "call_start t i w =
     (if is_task_terminal (widgets w t) then start t i w else (Inr (), surface_start t i w))"

text \<open>
  Lines 89 to 101: \<^verbatim>\<open>attachToTask\<close> up to the point where it returns the promise,
  and the two handlers chained on \<^verbatim>\<open>server.attach(params)\<close>, which run when that
  promise settles.
\<close>

definition attachToTask :: "wref \<Rightarrow> int \<times> string \<Rightarrow> World \<Rightarrow> unit outcome \<times> World" where
  "attachToTask t params w =
     (if attachingToTask (widgets w t) then (Inl (AlreadyAttaching (wid (widgets w t))), w)
      else (Inr (), server_attach t params (modify t (\<lambda>x. x\<lparr>attachingToTask := True\<rparr>) w)))"

definition attach_then :: "wref \<Rightarrow> World \<Rightarrow> unit outcome \<times> World" where
  "attach_then t w = (Inr (), modify t (\<lambda>x. x\<lparr>attachingToTask := False\<rparr>) w)"

definition attach_catch :: "wref \<Rightarrow> error \<Rightarrow> World \<Rightarrow> unit outcome \<times> World" where
  "attach_catch t e w = (Inl e, modify t (\<lambda>x. x\<lparr>attachingToTask := False\<rparr>) w)"

text \<open>
  Lines 104 to 122. \<open>validateId\<close> is \<^verbatim>\<open>IBaseTerminalServer.validateId\<close>, a function of
  the terminal library: it is a parameter here.
\<close>

definition update :: "(int \<Rightarrow> bool) \<Rightarrow> wref \<Rightarrow> World \<Rightarrow> unit outcome \<times> World" where
  "update validateId t w =
     (let x = widgets w t in
      if map_option task_state (task x) = Some CLOSED then (Inr (), dispose t w)
      else
        (let remoteTerminal = Option.bind (task x) task_terminal in
         if map_option task_state (task x) \<noteq> Some RUNNING \<or> \<not> truthy remoteTerminal
            \<or> starting x \<or> attachingToTask x
         then (Inr (), w)
         else
           (case remoteTerminal of
              None \<Rightarrow> (Inr (), w)
            | Some r \<Rightarrow>
                if \<not> validateId (terminalId x) then start t None w
                else attachToTask t (terminalId x, r) w)))"

text \<open>Lines 123 to 126.\<close>

definition applyTask :: "(int \<Rightarrow> bool) \<Rightarrow> wref \<Rightarrow> GitpodTask \<Rightarrow> World \<Rightarrow> unit outcome \<times> World" where
  "applyTask validateId t updated w =
     update validateId t (modify t (\<lambda>x. x\<lparr>task := Some updated\<rparr>) w)"

text \<open>
  The listeners of \<^verbatim>\<open>onDidOpen\<close> (lines 85 and 134) and of \<^verbatim>\<open>onDidOpenFailure\<close>
  (lines 86 and 135), in the order they were registered.
\<close>

definition reset_starting :: "wref \<Rightarrow> World \<Rightarrow> World" where
  "reset_starting t w = modify t (\<lambda>x. x\<lparr>starting := False\<rparr>) w"

definition fire_onDidOpen :: "(int \<Rightarrow> bool) \<Rightarrow> wref \<Rightarrow> World \<Rightarrow> unit outcome \<times> World" where
  "fire_onDidOpen validateId t w = update validateId t (reset_starting t w)"

definition fire_onDidOpenFailure :: "(int \<Rightarrow> bool) \<Rightarrow> wref \<Rightarrow> World \<Rightarrow> unit outcome \<times> World" where
  "fire_onDidOpenFailure validateId t w = update validateId t (reset_starting t w)"

text \<open>
  Lines 61 to 66 and the initial values of the closure variables (lines 75, 88, 103):
  the handler of \<^verbatim>\<open>onWillCreateWidget\<close> for the widget \<open>t\<close>.
\<close>

definition onWillCreateWidget :: "wref \<Rightarrow> World \<Rightarrow> World" where
  "onWillCreateWidget t w =
     (if is_task_terminal (widgets w t)
      then (modify t (\<lambda>x. x\<lparr>starting := False, attachingToTask := False, task := None\<rparr>) w)
             \<lparr>taskTerminals := (taskTerminals w)(wid (widgets w t) \<mapsto> t)\<rparr>
      else w)"

text \<open>
  Lines 67 to 73: the wrapper around the surface's \<^verbatim>\<open>attachTerminal\<close>. The promise
  of the surface's own \<^verbatim>\<open>attachTerminal(id)\<close> settles with \<open>attached\<close>, the promise of
  \<^verbatim>\<open>createTerminal()\<close>, if it is called, with \<open>created\<close>; the result is what the
  promise returned by the wrapper settles with.
\<close>

definition attachTerminal ::
  "(int \<Rightarrow> bool) \<Rightarrow> wref \<Rightarrow> int \<Rightarrow> int outcome \<Rightarrow> int outcome \<Rightarrow> World \<Rightarrow> int outcome \<times> World" where
  "attachTerminal validateId t i attached created w =
     (let w1 = emit (SurfaceAttachTerminal t i) w in
      case attached of
        Inl e \<Rightarrow> (Inl e, w1)
      | Inr tid \<Rightarrow>
          if validateId tid then (Inr tid, w1)
          else (created, emit (CreateTerminal t) w1))"

text \<open>Lines 178 to 191.\<close>

fun updateTerminals_loop :: "(int \<Rightarrow> bool) \<Rightarrow> GitpodTask list \<Rightarrow> World \<Rightarrow> World" where
  "updateTerminals_loop validateId [] w = w"
| "updateTerminals_loop validateId (tk # tasks) w =
     (case taskTerminals w (toTerminalId (task_id tk)) of
        None \<Rightarrow> updateTerminals_loop validateId tasks w
      | Some t \<Rightarrow>
          (case applyTask validateId t tk w of
             (Inr _, w') \<Rightarrow> updateTerminals_loop validateId tasks w'
           | (Inl e, w') \<Rightarrow>
               updateTerminals_loop validateId tasks
                 (emit (ConsoleError ''Failed to update Gitpod task terminal:'' e) w')))"

definition updateTerminals :: "(int \<Rightarrow> bool) \<Rightarrow> GitpodTask list \<Rightarrow> World \<Rightarrow> unit outcome \<times> World" where
  "updateTerminals validateId tasks w =
     (Inr (), updateTerminals_loop validateId tasks (emit (ApplyBatch tasks) w))"

subsection \<open>What the surroundings do to a terminal\<close>

text \<open>
  The widget manager creates a widget and fires \<^verbatim>\<open>onWillCreateWidget\<close> for it. The
  new widget has a fresh reference, no remote terminal yet (\<open>- 1\<close> is the library's
  value for that) and is listed by \<^verbatim>\<open>terminals.all\<close>.
\<close>

definition Widget0 :: Widget where
  "Widget0 =
     \<lparr>wid = [], kind = [], title = [], terminalId = - 1, isDisposed = False,
      unplaceable = False, starting = False, attachingToTask = False, task = None,
      startsInFlight = 0, attachesInFlight = 0\<rparr>"

definition World0 :: World where
  "World0 =
     \<lparr>widgets = (\<lambda>_. Widget0), nextRef = 0, allTerminals = [],
      taskTerminals = (\<lambda>_. None), effects = []\<rparr>"

definition create_widget :: "TerminalOptions \<Rightarrow> bool \<Rightarrow> World \<Rightarrow> wref \<times> World" where
  "create_widget opts bad w =
     (let t = nextRef w;
          x = Widget0\<lparr>wid := (case opt_id opts of Some i \<Rightarrow> i | None \<Rightarrow> ''terminal''),
                      kind := (case opt_kind opts of Some k \<Rightarrow> k | None \<Rightarrow> ''user''),
                      title := (case opt_title opts of Some n \<Rightarrow> n | None \<Rightarrow> []),
                      unplaceable := bad\<rparr>;
          w1 = w\<lparr>widgets := (widgets w)(t := x), nextRef := Suc t,
                 allTerminals := allTerminals w @ [t]\<rparr>
      in (t, onWillCreateWidget t w1))"

text \<open>
  The events that reach one terminal from outside: its creation, a task applied to it,
  a direct call of its \<^verbatim>\<open>start\<close>, the surface's open and open-failure signals, the
  settling of a promise of \<^verbatim>\<open>start\<close> or of \<^verbatim>\<open>server.attach\<close>, the surface
  learning its remote terminal id, and the widget being disposed by the shell or the
  user. An event for a reference that was never handed out, and the settling of a
  promise that does not exist, do nothing.
\<close>

datatype surface_event =
    WidgetCreated TerminalOptions bool
  | ApplyTask wref GitpodTask
  | CallStart wref "int option"
  | DidOpen wref
  | DidOpenFailure wref
  | StartSettled wref
  | AttachResolved wref
  | AttachRejected wref error
  | TerminalIdChanged wref int
  | WidgetDisposed wref

fun target :: "surface_event \<Rightarrow> wref option" where
  "target (WidgetCreated opts bad) = None"
| "target (ApplyTask t tk) = Some t"
| "target (CallStart t i) = Some t"
| "target (DidOpen t) = Some t"
| "target (DidOpenFailure t) = Some t"
| "target (StartSettled t) = Some t"
| "target (AttachResolved t) = Some t"
| "target (AttachRejected t e) = Some t"
| "target (TerminalIdChanged t n) = Some t"
| "target (WidgetDisposed t) = Some t"

fun deliver :: "(int \<Rightarrow> bool) \<Rightarrow> surface_event \<Rightarrow> World \<Rightarrow> World" where
  "deliver validateId (WidgetCreated opts bad) w = snd (create_widget opts bad w)"
| "deliver validateId (ApplyTask t tk) w =
     (if is_task_terminal (widgets w t) then snd (applyTask validateId t tk w) else w)"
| "deliver validateId (CallStart t i) w = snd (call_start t i w)"
| "deliver validateId (DidOpen t) w =
     (if is_task_terminal (widgets w t) then snd (fire_onDidOpen validateId t w) else w)"
| "deliver validateId (DidOpenFailure t) w =
     (if is_task_terminal (widgets w t) then snd (fire_onDidOpenFailure validateId t w) else w)"
| "deliver validateId (StartSettled t) w =
     (if 0 < startsInFlight (widgets w t)
      then modify t (\<lambda>x. x\<lparr>startsInFlight := startsInFlight x - 1\<rparr>) w else w)"
| "deliver validateId (AttachResolved t) w =
     (if 0 < attachesInFlight (widgets w t)
      then snd (attach_then t (modify t (\<lambda>x. x\<lparr>attachesInFlight := attachesInFlight x - 1\<rparr>) w))
      else w)"
| "deliver validateId (AttachRejected t e) w =
     (if 0 < attachesInFlight (widgets w t)
      then snd (attach_catch t e (modify t (\<lambda>x. x\<lparr>attachesInFlight := attachesInFlight x - 1\<rparr>) w))
      else w)"
| "deliver validateId (TerminalIdChanged t n) w = modify t (\<lambda>x. x\<lparr>terminalId := n\<rparr>) w"
| "deliver validateId (WidgetDisposed t) w = dispose t w"

definition surface_step :: "(int \<Rightarrow> bool) \<Rightarrow> surface_event \<Rightarrow> World \<Rightarrow> World" where
  "surface_step validateId ev w =
     (case target ev of
        None \<Rightarrow> deliver validateId ev w
      | Some t \<Rightarrow> if t < nextRef w then deliver validateId ev w else w)"

fun surface_run :: "(int \<Rightarrow> bool) \<Rightarrow> surface_event list \<Rightarrow> World \<Rightarrow> World" where
  "surface_run validateId [] w = w"
| "surface_run validateId (ev # evs) w = surface_run validateId evs (surface_step validateId ev w)"


section \<open>The contribution: update queue and initial layout\<close>

subsection \<open>Promises and the microtask queue\<close>

text \<open>
  The promises that \<^verbatim>\<open>queue\<close> chains are kept in a table, as the language
  specifies them: a promise is pending, fulfilled or rejected; while it is pending it
  holds the reactions registered by \<^verbatim>\<open>then\<close>; when it settles, one job per reaction
  goes to the end of the microtask queue; \<^verbatim>\<open>then\<close> on a settled promise queues the
  job at once. A job runs its handler and settles the promise that \<^verbatim>\<open>then\<close>
  returned: fulfilled when the handler returns, rejected when it throws. Promise \<open>0\<close>
  is \<^verbatim>\<open>pendingInitializeLayout.promise\<close>.

  A handler is a function \<^verbatim>\<open>() => void\<close> that acts on the world and may throw.
  \<open>history\<close> is not state of the program: it lists, in the order they ran, the promises
  whose handler has run.
\<close>

datatype pstatus = Pending | Fulfilled | Rejected

type_synonym pref = nat

type_synonym fn = "World \<Rightarrow> unit outcome \<times> World"

datatype job = Reaction fn pref | ResumeLayout

text \<open>
  Where \<^verbatim>\<open>onDidInitializeLayout\<close> stands: not called yet; suspended at one of its
  three \<^verbatim>\<open>await\<close>s (with the value the awaited promise settled with, once it has);
  returned; or rejected. At the \<^verbatim>\<open>await\<close> inside the loop the frame holds the
  current task, the tasks still to come and \<^verbatim>\<open>ref\<close>.
\<close>

datatype layout_pc =
    NotCalled
  | AwaitingTasks
  | AwaitingNewTerminal GitpodTask "GitpodTask list" "wref option" "wref outcome option"
  | AwaitingDefaultTerminal "wref outcome option"
  | Returned
  | Thrown error

record System =
  world :: World
  pendingInitialTasks :: "GitpodTask list option"
  status :: "pref \<Rightarrow> pstatus"
  reactions :: "pref \<Rightarrow> (fn \<times> fn \<times> pref) list"
  nextPromise :: pref
  updateQueue :: pref
  jobs :: "job list"
  layout :: layout_pc
  history :: "pref list"

definition System0 :: System where
  "System0 =
     \<lparr>world = World0, pendingInitialTasks = None, status = (\<lambda>_. Pending),
      reactions = (\<lambda>_. []), nextPromise = 1, updateQueue = 0, jobs = [],
      layout = NotCalled, history = []\<rparr>"

definition reaction_job :: "pstatus \<Rightarrow> fn \<times> fn \<times> pref \<Rightarrow> job" where
  "reaction_job st r =
     (case r of (onFulfilled, onRejected, q) \<Rightarrow>
        Reaction (if st = Rejected then onRejected else onFulfilled) q)"

definition settle :: "pref \<Rightarrow> pstatus \<Rightarrow> System \<Rightarrow> System" where
  "settle p st s =
     (if status s p \<noteq> Pending then s
      else s\<lparr>status := (status s)(p := st),
             reactions := (reactions s)(p := []),
             jobs := jobs s @ map (reaction_job st) (reactions s p)\<rparr>)"

definition then_promise :: "pref \<Rightarrow> fn \<Rightarrow> fn \<Rightarrow> System \<Rightarrow> pref \<times> System" where
  "then_promise p onFulfilled onRejected s =
     (let q = nextPromise s;
          s1 = s\<lparr>nextPromise := Suc q\<rparr>
      in if status s1 p = Pending
         then (q, s1\<lparr>reactions :=
                       (reactions s1)(p := reactions s1 p @ [(onFulfilled, onRejected, q)])\<rparr>)
         else (q, s1\<lparr>jobs := jobs s1 @ [reaction_job (status s1 p) (onFulfilled, onRejected, q)]\<rparr>))"

text \<open>Lines 193 to 195.\<close>

definition queue :: "fn \<Rightarrow> System \<Rightarrow> pref \<times> System" where
  "queue update_fn s =
     (case then_promise (updateQueue s) update_fn update_fn s of
        (q, s') \<Rightarrow> (q, s'\<lparr>updateQueue := q\<rparr>))"

text \<open>
  \<^verbatim>\<open>this.pendingInitialTasks.resolve(updated)\<close>: the first call settles the promise
  and wakes \<^verbatim>\<open>onDidInitializeLayout\<close> if it is waiting for it; later calls do
  nothing.
\<close>

definition resolve_pendingInitialTasks :: "GitpodTask list \<Rightarrow> System \<Rightarrow> System" where
  "resolve_pendingInitialTasks updated s =
     (case pendingInitialTasks s of
        Some _ \<Rightarrow> s
      | None \<Rightarrow>
          s\<lparr>pendingInitialTasks := Some updated,
            jobs := jobs s @ (if layout s = AwaitingTasks then [ResumeLayout] else [])\<rparr>)"

text \<open>Lines 55 to 58: the client's \<^verbatim>\<open>onDidChange\<close>.\<close>

definition onDidChange :: "(int \<Rightarrow> bool) \<Rightarrow> GitpodTask list \<Rightarrow> System \<Rightarrow> System" where
  "onDidChange validateId updated s =
     snd (queue (updateTerminals validateId updated) (resolve_pendingInitialTasks updated s))"

subsection \<open>Initial layout\<close>

definition task_terminal_options :: "GitpodTask \<Rightarrow> Presentation \<Rightarrow> TerminalOptions" where
  "task_terminal_options tk p =
     \<lparr>opt_id = Some (toTerminalId (task_id tk)), opt_kind = Some ''gitpod-task'',
      opt_title = Some (name p), opt_useServerTitle = Some False\<rparr>"

definition default_options :: TerminalOptions where
  "default_options =
     \<lparr>opt_id = None, opt_kind = None, opt_title = None, opt_useServerTitle = None\<rparr>"

definition log_layout_failure :: "error \<Rightarrow> System \<Rightarrow> System" where
  "log_layout_failure e s =
     s\<lparr>world := emit (ConsoleError ''Failed to start Gitpod task terminal:'' e) (world s)\<rparr>"

text \<open>
  Lines 168 to 172: the loop is over; \<^verbatim>\<open>pendingInitializeLayout\<close> is resolved and,
  if there is no terminal at all, a default one is asked for.
\<close>

definition layout_finish :: "System \<Rightarrow> System" where
  "layout_finish s =
     (let s1 = settle 0 Fulfilled (s\<lparr>world := emit LayoutResolved (world s)\<rparr>)
      in if allTerminals (world s1) = []
         then s1\<lparr>world := emit (NewTerminal default_options) (world s1),
                 layout := AwaitingDefaultTerminal None\<rparr>
         else s1\<lparr>layout := Returned\<rparr>)"

text \<open>
  Lines 143 to 167, from the head of the loop to the next \<^verbatim>\<open>await\<close> or to the end.
  A task without \<^verbatim>\<open>presentation\<close> makes \<^verbatim>\<open>task.presentation!.name\<close> throw a
  \<^verbatim>\<open>TypeError\<close> inside the \<^verbatim>\<open>try\<close>.
\<close>

fun layout_loop :: "GitpodTask list \<Rightarrow> wref option \<Rightarrow> System \<Rightarrow> System" where
  "layout_loop [] ref s = layout_finish s"
| "layout_loop (tk # tasks) ref s =
     (if task_state tk = CLOSED then layout_loop tasks ref s
      else
        (case taskTerminals (world s) (toTerminalId (task_id tk)) of
           Some terminal \<Rightarrow> layout_loop tasks (Some terminal) s
         | None \<Rightarrow>
             (case task_presentation tk of
                None \<Rightarrow> layout_loop tasks ref (log_layout_failure TypeError s)
              | Some p \<Rightarrow>
                  s\<lparr>world := emit (NewTerminal (task_terminal_options tk p)) (world s),
                    layout := AwaitingNewTerminal tk tasks ref None\<rparr>)))"

text \<open>
  Lines 157 to 161: \<^verbatim>\<open>activateTerminal\<close> is called and, for a widget the shell
  cannot place, throws.
\<close>

definition activateTerminal :: "wref \<Rightarrow> Placement \<Rightarrow> World \<Rightarrow> unit outcome \<times> World" where
  "activateTerminal t pl w =
     (if unplaceable (widgets w t)
      then (Inl (Failure ''activateTerminal''), emit (ActivateTerminal t pl) w)
      else (Inr (), emit (ActivateTerminal t pl) w))"

text \<open>
  The function resumes after an \<^verbatim>\<open>await\<close> whose promise has settled.
\<close>

definition resume_layout :: "System \<Rightarrow> System" where
  "resume_layout s =
     (case layout s of
        AwaitingTasks \<Rightarrow>
          (case pendingInitialTasks s of
             None \<Rightarrow> s
           | Some tasks \<Rightarrow> layout_loop tasks None s)
      | AwaitingNewTerminal tk tasks ref (Some (Inl e)) \<Rightarrow>
          layout_loop tasks ref (log_layout_failure e s)
      | AwaitingNewTerminal tk tasks ref (Some (Inr terminal)) \<Rightarrow>
          (case task_presentation tk of
             None \<Rightarrow> layout_loop tasks ref (log_layout_failure TypeError s)
           | Some p \<Rightarrow>
               (case activateTerminal terminal
                       \<lparr>place_ref = ref, place_area = or_else (openIn p) ''bottom'',
                        place_mode = or_else (openMode p) ''tab-after''\<rparr> (world s) of
                  (Inl e, w') \<Rightarrow> layout_loop tasks ref (log_layout_failure e (s\<lparr>world := w'\<rparr>))
                | (Inr _, w') \<Rightarrow> layout_loop tasks (Some terminal) (s\<lparr>world := w'\<rparr>)))
      | AwaitingDefaultTerminal (Some (Inl e)) \<Rightarrow> s\<lparr>layout := Thrown e\<rparr>
      | AwaitingDefaultTerminal (Some (Inr terminal)) \<Rightarrow>
          (case call_start terminal None (world s) of
             (Inl e, w') \<Rightarrow> s\<lparr>world := w', layout := Thrown e\<rparr>
           | (Inr _, w') \<Rightarrow> s\<lparr>world := emit (OpenTerminal terminal) w', layout := Returned\<rparr>)
      | _ \<Rightarrow> s)"

text \<open>
  Line 141: the call of \<^verbatim>\<open>onDidInitializeLayout\<close> runs up to its first
  \<^verbatim>\<open>await\<close>; the function resumes in a microtask once the promise of the initial
  tasks is settled.
\<close>

definition onDidInitializeLayout :: "System \<Rightarrow> System" where
  "onDidInitializeLayout s =
     s\<lparr>layout := AwaitingTasks,
       jobs := jobs s @ (if pendingInitialTasks s = None then [] else [ResumeLayout])\<rparr>"

text \<open>
  The promise of \<^verbatim>\<open>terminals.newTerminal(options)\<close> settles. The shell either
  rejects it, or has created a widget from the options that were passed (firing
  \<^verbatim>\<open>onWillCreateWidget\<close>) and resolves it with that widget; \<open>Inr bad\<close> says so, \<open>bad\<close>
  telling whether the widget is one the shell cannot place.
\<close>

definition newTerminal_settled :: "bool outcome \<Rightarrow> System \<Rightarrow> System" where
  "newTerminal_settled a s =
     (case layout s of
        AwaitingNewTerminal tk tasks ref None \<Rightarrow>
          (case a of
             Inl e \<Rightarrow> s\<lparr>layout := AwaitingNewTerminal tk tasks ref (Some (Inl e)),
                       jobs := jobs s @ [ResumeLayout]\<rparr>
           | Inr bad \<Rightarrow>
               (case task_presentation tk of
                  None \<Rightarrow> s
                | Some p \<Rightarrow>
                    (case create_widget (task_terminal_options tk p) bad (world s) of
                       (t, w') \<Rightarrow>
                         s\<lparr>world := w',
                           layout := AwaitingNewTerminal tk tasks ref (Some (Inr t)),
                           jobs := jobs s @ [ResumeLayout]\<rparr>)))
      | AwaitingDefaultTerminal None \<Rightarrow>
          (case a of
             Inl e \<Rightarrow> s\<lparr>layout := AwaitingDefaultTerminal (Some (Inl e)),
                       jobs := jobs s @ [ResumeLayout]\<rparr>
           | Inr bad \<Rightarrow>
               (case create_widget default_options bad (world s) of
                  (t, w') \<Rightarrow>
                    s\<lparr>world := w', layout := AwaitingDefaultTerminal (Some (Inr t)),
                      jobs := jobs s @ [ResumeLayout]\<rparr>))
      | _ \<Rightarrow> s)"

subsection \<open>Events and runs of the whole contribution\<close>

text \<open>One microtask: the first job of the queue runs.\<close>

definition run_job :: "System \<Rightarrow> System" where
  "run_job s =
     (case jobs s of
        [] \<Rightarrow> s
      | Reaction f q # js \<Rightarrow>
          (case f (world s) of
             (r, w') \<Rightarrow>
               settle q (case r of Inl _ \<Rightarrow> Rejected | Inr _ \<Rightarrow> Fulfilled)
                 (s\<lparr>jobs := js, world := w', history := history s @ [q]\<rparr>))
      | ResumeLayout # js \<Rightarrow> resume_layout (s\<lparr>jobs := js\<rparr>))"

text \<open>
  What can happen to the contribution: the task server pushes a snapshot; the shell
  signals that the layout is initialized (once); a microtask runs; the promise of
  \<^verbatim>\<open>newTerminal\<close> settles; something happens to a terminal; and, to state the
  contract of \<^verbatim>\<open>queue\<close> for any function, a call of \<^verbatim>\<open>queue\<close>.
\<close>

datatype event =
    Snapshot "GitpodTask list"
  | LayoutInitialized
  | Microtask
  | NewTerminalSettled "bool outcome"
  | Surface surface_event
  | Enqueue fn

fun step :: "(int \<Rightarrow> bool) \<Rightarrow> event \<Rightarrow> System \<Rightarrow> System" where
  "step validateId (Snapshot updated) s = onDidChange validateId updated s"
| "step validateId LayoutInitialized s =
     (if layout s = NotCalled then onDidInitializeLayout s else s)"
| "step validateId Microtask s = run_job s"
| "step validateId (NewTerminalSettled a) s = newTerminal_settled a s"
| "step validateId (Surface ev) s = s\<lparr>world := surface_step validateId ev (world s)\<rparr>"
| "step validateId (Enqueue f) s = snd (queue f s)"

fun run :: "(int \<Rightarrow> bool) \<Rightarrow> event list \<Rightarrow> System \<Rightarrow> System" where
  "run validateId [] s = s"
| "run validateId (ev # evs) s = run validateId evs (step validateId ev s)"

subsection \<open>Predicates on worlds\<close>





text \<open>
  \<^verbatim>\<open>attachingToTask\<close> is set exactly while one promise of \<^verbatim>\<open>server.attach\<close> is
  pending for the terminal, and there is never more than one.
\<close>

definition attach_inv :: "World \<Rightarrow> bool" where
  "attach_inv w =
     (\<forall>t. attachingToTask (widgets w t) = (attachesInFlight (widgets w t) = 1)
          \<and> attachesInFlight (widgets w t) \<le> 1)"

subsection \<open>Predicates on systems\<close>

text \<open>The promises whose reaction jobs wait in a microtask queue, in order.\<close>

fun reaction_ids :: "job list \<Rightarrow> pref list" where
  "reaction_ids [] = []"
| "reaction_ids (Reaction f q # js) = q # reaction_ids js"
| "reaction_ids (ResumeLayout # js) = reaction_ids js"

text \<open>
  The shape of the chain built by \<^verbatim>\<open>queue\<close>: promise \<open>p + 1\<close> is the one returned
  by \<^verbatim>\<open>then\<close> on promise \<open>p\<close>; the handlers have run for an initial stretch of the
  chain, in order; every pending promise but the last holds the one reaction that
  settles its successor; and the only reaction job that can wait in the microtask queue
  is the one of the first promise whose handler has not run, once its predecessor is
  settled.
\<close>

definition queue_inv :: "System \<Rightarrow> bool" where
  "queue_inv s =
     (nextPromise s = Suc (updateQueue s)
      \<and> history s = [1..<Suc (length (history s))]
      \<and> length (history s) < nextPromise s
      \<and> (status s 0 = Pending \<longrightarrow> history s = [])
      \<and> status s 0 \<noteq> Rejected
      \<and> (\<forall>p. 0 < p \<longrightarrow> (status s p \<noteq> Pending) = (p \<le> length (history s)))
      \<and> (\<forall>p. status s p = Pending \<and> Suc p < nextPromise s \<longrightarrow>
               (\<exists>f g. reactions s p = [(f, g, Suc p)]))
      \<and> (\<forall>p. status s p \<noteq> Pending \<or> nextPromise s \<le> Suc p \<longrightarrow> reactions s p = [])
      \<and> reaction_ids (jobs s) =
           (if status s (length (history s)) \<noteq> Pending \<and> Suc (length (history s)) < nextPromise s
            then [Suc (length (history s))] else []))"

text \<open>The part of the state that \<open>queue_inv\<close> speaks about.\<close>

definition chain_of ::
  "System \<Rightarrow> (pref \<Rightarrow> pstatus) \<times> (pref \<Rightarrow> (fn \<times> fn \<times> pref) list) \<times> pref \<times> pref \<times> job list \<times> pref list" where
  "chain_of s = (status s, reactions s, nextPromise s, updateQueue s, jobs s, history s)"

text \<open>
  An upper bound on the microtasks that are needed to run every queued handler once the
  head of the chain is settled.
\<close>

definition backlog :: "System \<Rightarrow> nat" where
  "backlog s = length (jobs s) + (nextPromise s - Suc (length (history s)))"

subsection \<open>The order of layout and updates\<close>

text \<open>
  The marker of an update batch; and what the loop of the initial layout asks of the
  shell or logs for a task: a task terminal requested, a terminal placed, a failure of
  one of the two logged.
\<close>

fun is_batch :: "effect \<Rightarrow> bool" where
  "is_batch (ApplyBatch tasks) = True"
| "is_batch e = False"

fun is_layout_effect :: "effect \<Rightarrow> bool" where
  "is_layout_effect (NewTerminal opts) = (opt_kind opts = Some ''gitpod-task'')"
| "is_layout_effect (ActivateTerminal t pl) = True"
| "is_layout_effect (ConsoleError m e) = (m = ''Failed to start Gitpod task terminal:'')"
| "is_layout_effect e = False"

text \<open>
  Up to the resolution of the initial layout no batch has been applied; from the
  resolution on, nothing is done for the layout of a task any more.
\<close>

definition layout_then_updates :: "effect list \<Rightarrow> bool" where
  "layout_then_updates es =
     (list_all (\<lambda>e. \<not> is_batch e) (takeWhile (\<lambda>e. e \<noteq> LayoutResolved) es)
      \<and> list_all (\<lambda>e. \<not> is_layout_effect e) (dropWhile (\<lambda>e. e \<noteq> LayoutResolved) es))"

fun is_enqueue :: "event \<Rightarrow> bool" where
  "is_enqueue (Enqueue f) = True"
| "is_enqueue ev = False"

text \<open>
  \<open>grows P w w'\<close>: the world \<open>w'\<close> has the effects of \<open>w\<close> and after them only effects
  with \<open>P\<close>. An effect is \<open>quiet\<close> when it is neither a batch marker, nor a layout effect,
  nor the resolution.
\<close>

definition grows :: "(effect \<Rightarrow> bool) \<Rightarrow> World \<Rightarrow> World \<Rightarrow> bool" where
  "grows P w w' = (\<exists>xs. effects w' = effects w @ xs \<and> list_all P xs)"

text \<open>
  What the guard of a task terminal asks or logs: a start, an attach, a dispose, a failed
  update logged.
\<close>

fun guard_effect :: "effect \<Rightarrow> bool" where
  "guard_effect (Start t i) = True"
| "guard_effect (Attach t n r) = True"
| "guard_effect (Dispose t) = True"
| "guard_effect (ConsoleError m e) = (m = ''Failed to update Gitpod task terminal:'')"
| "guard_effect e = False"

definition quiet :: "effect \<Rightarrow> bool" where
  "quiet e = (\<not> is_batch e \<and> \<not> is_layout_effect e \<and> e \<noteq> LayoutResolved)"

definition unresolved :: "effect list \<Rightarrow> bool" where
  "unresolved es = (LayoutResolved \<notin> set es \<and> list_all (\<lambda>e. \<not> is_batch e) es)"

definition resolved :: "effect list \<Rightarrow> bool" where
  "resolved es = (LayoutResolved \<in> set es \<and> layout_then_updates es)"

text \<open>
  \<^verbatim>\<open>onDidInitializeLayout\<close> has not reached \<^verbatim>\<open>pendingInitializeLayout.resolve()\<close>.
\<close>

definition in_loop :: "System \<Rightarrow> bool" where
  "in_loop s =
     (case layout s of
        NotCalled \<Rightarrow> True
      | AwaitingTasks \<Rightarrow> True
      | AwaitingNewTerminal tk tasks ref a \<Rightarrow> True
      | _ \<Rightarrow> False)"

text \<open>A handler that marks batches and acts through the guards of task terminals only.\<close>

definition benign :: "fn \<Rightarrow> bool" where
  "benign f = (\<forall>w. grows (\<lambda>e. is_batch e \<or> guard_effect e) w (snd (f w)))"

fun benign_job :: "job \<Rightarrow> bool" where
  "benign_job (Reaction f q) = benign f"
| "benign_job ResumeLayout = True"

definition handlers_benign :: "System \<Rightarrow> bool" where
  "handlers_benign s =
     ((\<forall>p. \<forall>r \<in> set (reactions s p). benign (fst r) \<and> benign (fst (snd r)))
      \<and> (\<forall>j \<in> set (jobs s). benign_job j))"

definition phase_inv :: "System \<Rightarrow> bool" where
  "phase_inv s =
     ((in_loop s \<and> status s 0 = Pending \<and> unresolved (effects (world s)))
      \<or> (\<not> in_loop s \<and> status s 0 = Fulfilled \<and> resolved (effects (world s))))"

subsection \<open>The default terminal\<close>

text \<open>
  How often the reconciler has asked for a terminal with the empty options, how often it
  has called \<^verbatim>\<open>terminals.open\<close>, and the effects that are neither of the two.
\<close>

fun is_open :: "effect \<Rightarrow> bool" where
  "is_open (OpenTerminal t) = True"
| "is_open e = False"

definition defaults_requested :: "World \<Rightarrow> nat" where
  "defaults_requested w = count_list (effects w) (NewTerminal default_options)"

definition opened :: "World \<Rightarrow> nat" where
  "opened w = length (filter is_open (effects w))"

definition plain :: "effect \<Rightarrow> bool" where
  "plain e = (e \<noteq> NewTerminal default_options \<and> \<not> is_open e)"

text \<open>
  No default terminal is requested before the loop is over, at most one is requested at
  all, and nothing is opened that was not requested.
\<close>

definition awaiting_default :: "System \<Rightarrow> bool" where
  "awaiting_default s = (case layout s of AwaitingDefaultTerminal a \<Rightarrow> True | _ \<Rightarrow> False)"

definition default_inv :: "System \<Rightarrow> bool" where
  "default_inv s =
     ((in_loop s \<longrightarrow> defaults_requested (world s) = 0)
      \<and> (awaiting_default s \<longrightarrow> defaults_requested (world s) = 1 \<and> opened (world s) = 0)
      \<and> defaults_requested (world s) \<le> 1
      \<and> opened (world s) \<le> defaults_requested (world s))"

subsection \<open>The requests of the initial layout\<close>



definition requested_options :: "GitpodTask \<Rightarrow> TerminalOptions" where
  "requested_options tk =
     \<lparr>opt_id = Some (toTerminalId (task_id tk)), opt_kind = Some ''gitpod-task'',
      opt_title = map_option name (task_presentation tk), opt_useServerTitle = Some False\<rparr>"

subsection \<open>A small world\<close>

text \<open>
  The scenario of the spec: the task \<^verbatim>\<open>{id: "t1", state: RUNNING, terminal: "r1"}\<close>
  and one task terminal created for it. \<open>validateId0\<close> is how the terminal library
  decides \<^verbatim>\<open>validateId\<close>: every number but \<open>- 1\<close> is a valid id.
\<close>

definition validateId0 :: "int \<Rightarrow> bool" where
  "validateId0 i = (i \<noteq> - 1)"

definition task_t1 :: GitpodTask where
  "task_t1 =
     \<lparr>task_id = ''t1'', task_state = RUNNING, task_terminal = Some ''r1'',
      task_presentation = Some \<lparr>name = ''build'', openIn = None, openMode = None\<rparr>\<rparr>"

definition closed_t1 :: GitpodTask where
  "closed_t1 = task_t1\<lparr>task_state := CLOSED\<rparr>"

definition options_t1 :: TerminalOptions where
  "options_t1 =
     \<lparr>opt_id = Some ''gitpod-task-terminal:t1'', opt_kind = Some ''gitpod-task'',
      opt_title = Some ''build'', opt_useServerTitle = Some False\<rparr>"

definition world_t1 :: World where
  "world_t1 = surface_run validateId0 [WidgetCreated options_t1 False] World0"

text \<open>
  Two handlers for the queue, one that throws after it has acted and one that returns, and
  the contribution at rest: the layout is initialized, an empty snapshot has arrived and
  its batch has been applied.
\<close>

definition failing_fn :: fn where
  "failing_fn w = (Inl (Failure ''first''), emit (ConsoleError ''first'' (Failure ''first'')) w)"

definition marking_fn :: fn where
  "marking_fn w = (Inr (), emit (ConsoleError ''second'' (Failure ''none'')) w)"

definition idle_system :: System where
  "idle_system = run validateId0 [LayoutInitialized, Snapshot [], Microtask, Microtask] System0"


text \<open>A run in which the snapshot arrives before the shell signals that it is ready.\<close>

definition snapshot_first_run :: "event list" where
  "snapshot_first_run =
     [Snapshot [task_t1], LayoutInitialized, Microtask, NewTerminalSettled (Inr False),
      Microtask, Microtask]"

text \<open>A run with an empty first snapshot and no terminal in the shell.\<close>

definition empty_snapshot_run :: "event list" where
  "empty_snapshot_run =
     [Snapshot [], LayoutInitialized, Microtask, NewTerminalSettled (Inr False), Microtask,
      Microtask]"


section \<open>Properties of the terminal identifier\<close>

lemma split_not_Nil: "split c s \<noteq> []"
  by (induction s) (auto split: list.splits)

lemma split_no_sep: "c \<notin> set s \<Longrightarrow> split c s = [s]"
  by (induction s) auto

lemma split_append_sep:
  "c \<notin> set p \<Longrightarrow> split c (p @ c # s) = p # split c s"
  by (induction p) auto

lemma sep_notin_idPrefix: "CHR '':'' \<notin> set idPrefix"
  by (simp add: idPrefix_def)

lemma split_toTerminalId:
  "split CHR '':'' (toTerminalId i) = idPrefix # split CHR '':'' i"
  using split_append_sep [OF sep_notin_idPrefix, of i]
  by (simp add: toTerminalId_def)

lemma beyond_first_toTerminalId:
  "beyond_first CHR '':'' (toTerminalId i) = i"
proof -
  have "dropWhile (\<lambda>x. x \<noteq> CHR '':'') (idPrefix @ CHR '':'' # i) = CHR '':'' # i"
    using sep_notin_idPrefix by (subst dropWhile_append2) auto
  then show ?thesis
    by (simp add: beyond_first_def toTerminalId_def)
qed

text \<open>
  Claim C7. The derived terminal identifier round-trips: whenever the separator does not
  occur beyond its first occurrence in \<open>toTerminalId taskId\<close>, \<open>getTaskId\<close> applied to
  the id \<open>toTerminalId taskId\<close> of a terminal yields \<open>taskId\<close>, and \<open>taskId\<close> is the
  substring after the separator.
\<close>

theorem toTerminalId_getTaskId_roundtrip:
  assumes "CHR '':'' \<notin> set (beyond_first CHR '':'' (toTerminalId taskId))"
  shows "getTaskId (toTerminalId taskId) = Some taskId
         \<and> beyond_first CHR '':'' (toTerminalId taskId) = taskId"
proof -
  from assms have "CHR '':'' \<notin> set taskId"
    by (simp add: beyond_first_toTerminalId)
  then have "split CHR '':'' (toTerminalId taskId) = [idPrefix, taskId]"
    by (simp add: split_toTerminalId split_no_sep)
  then show ?thesis
    by (simp add: getTaskId_def at_index_def beyond_first_toTerminalId)
qed

theorem toTerminalId_getTaskId_roundtrip_witness:
  "CHR '':'' \<notin> set (beyond_first CHR '':'' (toTerminalId ''t1''))
   \<and> toTerminalId ''t1'' = ''gitpod-task-terminal:t1''
   \<and> getTaskId ''gitpod-task-terminal:t1'' = Some ''t1''"
proof -
  have h: "CHR '':'' \<notin> set (beyond_first CHR '':'' (toTerminalId ''t1''))"
    by (simp add: beyond_first_toTerminalId)
  have e: "toTerminalId ''t1'' = ''gitpod-task-terminal:t1''"
    by (simp add: toTerminalId_def idPrefix_def)
  from toTerminalId_getTaskId_roundtrip [OF h] e h show ?thesis
    by simp
qed

section \<open>Properties of the lifecycle guard\<close>

subsection \<open>What one evaluation of the guard does\<close>

lemma widget_task_same: "task x = Some tk \<Longrightarrow> x\<lparr>task := Some tk\<rparr> = x"
  by (cases x) simp

lemma modify_same: "f (widgets w t) = widgets w t \<Longrightarrow> modify t f w = w"
  by (simp add: modify_def)

lemma update_attach:
  assumes "task (widgets w t) = Some tk" and "task_state tk = RUNNING"
    and "task_terminal tk = Some r" and "r \<noteq> []"
    and "validateId (terminalId (widgets w t))"
    and "\<not> starting (widgets w t)" and "\<not> attachingToTask (widgets w t)"
  shows "update validateId t w =
           (Inr (), server_attach t (terminalId (widgets w t), r)
                      (modify t (\<lambda>x. x\<lparr>attachingToTask := True\<rparr>) w))"
  using assms by (simp add: update_def attachToTask_def truthy_def)

lemma update_start:
  assumes "task (widgets w t) = Some tk" and "task_state tk = RUNNING"
    and "task_terminal tk = Some r" and "r \<noteq> []"
    and "\<not> validateId (terminalId (widgets w t))"
    and "\<not> starting (widgets w t)" and "\<not> attachingToTask (widgets w t)"
  shows "update validateId t w =
           (Inr (), surface_start t None (modify t (\<lambda>x. x\<lparr>starting := True\<rparr>) w))"
  using assms by (simp add: update_def start_def truthy_def)

lemma update_busy:
  assumes "starting (widgets w t) \<or> attachingToTask (widgets w t)"
    and "map_option task_state (task (widgets w t)) \<noteq> Some CLOSED"
  shows "update validateId t w = (Inr (), w)"
  using assms by (auto simp add: update_def Let_def)

lemma update_closed:
  assumes "task (widgets w t) = Some tk" and "task_state tk = CLOSED"
  shows "update validateId t w = (Inr (), dispose t w)"
  using assms by (simp add: update_def)

subsection \<open>The binding table\<close>

lemma dispose_frame:
  "nextRef (dispose t w) = nextRef w"
  "wid (widgets (dispose t w) u) = wid (widgets w u)"
  "kind (widgets (dispose t w) u) = kind (widgets w u)"
  "isDisposed (widgets (dispose t w) u) = (isDisposed (widgets w u) \<or> u = t)"
  "taskTerminals (dispose t w) =
     (if \<not> isDisposed (widgets w t) \<and> is_task_terminal (widgets w t)
      then (taskTerminals w)(wid (widgets w t) := None) else taskTerminals w)"
  "effects (dispose t w) = effects w @ [Dispose t]"
  by (auto simp add: dispose_def Let_def emit_def modify_def onDidDispose_def
      is_task_terminal_def)


lemma update_never_throws: "fst (update validateId t w) = Inr ()"
  by (auto simp add: update_def Let_def start_def attachToTask_def split: option.splits)














text \<open>
  \<open>applyTask\<close> never throws, so the catch branch of the loop is never taken.
\<close>

lemma applyTask_never_throws: "fst (applyTask validateId t tk w) = Inr ()"
  by (simp add: applyTask_def update_never_throws)

lemma updateTerminals_loop_step:
  "updateTerminals_loop validateId (tk # tasks) w =
     (case taskTerminals w (toTerminalId (task_id tk)) of
        None \<Rightarrow> updateTerminals_loop validateId tasks w
      | Some t \<Rightarrow> updateTerminals_loop validateId tasks (snd (applyTask validateId t tk w)))"
proof (cases "taskTerminals w (toTerminalId (task_id tk))")
  case None
  then show ?thesis by simp
next
  case (Some t)
  obtain r w' where a: "applyTask validateId t tk w = (r, w')"
    by (cases "applyTask validateId t tk w")
  with applyTask_never_throws [of validateId t tk w] have "r = Inr ()" by simp
  with a Some show ?thesis by simp
qed











subsection \<open>The attach flag\<close>

lemma dispose_widgets_flags:
  "attachingToTask (widgets (dispose t w) u) = attachingToTask (widgets w u)
   \<and> attachesInFlight (widgets (dispose t w) u) = attachesInFlight (widgets w u)
   \<and> starting (widgets (dispose t w) u) = starting (widgets w u)
   \<and> startsInFlight (widgets (dispose t w) u) = startsInFlight (widgets w u)"
  by (simp add: dispose_def Let_def emit_def modify_def onDidDispose_def)

lemma attach_inv_update:
  assumes "attach_inv w" shows "attach_inv (snd (update validateId t w))"
  using assms unfolding attach_inv_def update_def Let_def
  by (auto simp add: dispose_widgets_flags start_def attachToTask_def surface_start_def
      server_attach_def modify_def emit_def split: option.splits)

lemma attach_inv_modify:
  assumes "attach_inv w"
    and "attachingToTask (f (widgets w t)) = attachingToTask (widgets w t)"
    and "attachesInFlight (f (widgets w t)) = attachesInFlight (widgets w t)"
  shows "attach_inv (modify t f w)"
  using assms unfolding attach_inv_def modify_def by auto

lemma attach_inv_step:
  assumes "attach_inv w" shows "attach_inv (surface_step validateId ev w)"
proof -
  have d: "attach_inv (deliver validateId ev w)"
  proof (cases ev)
    case (WidgetCreated opts bad)
    then show ?thesis using assms
      by (auto simp add: attach_inv_def create_widget_def Let_def onWillCreateWidget_def
          modify_def Widget0_def)
  next
    case (ApplyTask t tk)
    then show ?thesis using assms
      by (simp add: applyTask_def attach_inv_update attach_inv_modify)
  next
    case (CallStart t i)
    then show ?thesis using assms
      by (auto simp add: attach_inv_def call_start_def start_def surface_start_def modify_def
          emit_def)
  next
    case (DidOpen t)
    then show ?thesis using assms
      by (simp add: fire_onDidOpen_def reset_starting_def attach_inv_update attach_inv_modify)
  next
    case (DidOpenFailure t)
    then show ?thesis using assms
      by (simp add: fire_onDidOpenFailure_def reset_starting_def attach_inv_update attach_inv_modify)
  next
    case (StartSettled t)
    then show ?thesis using assms
      by (simp add: attach_inv_modify)
  next
    case (AttachResolved t)
    then show ?thesis using assms
      by (auto simp add: attach_inv_def attach_then_def modify_def)
  next
    case (AttachRejected t e)
    then show ?thesis using assms
      by (auto simp add: attach_inv_def attach_catch_def modify_def)
  next
    case (TerminalIdChanged t n)
    then show ?thesis using assms
      by (simp add: attach_inv_modify)
  next
    case (WidgetDisposed t)
    then show ?thesis using assms
      by (simp add: attach_inv_def dispose_widgets_flags)
  qed
  then show ?thesis using assms
    by (simp add: surface_step_def split: option.splits)
qed

lemma attach_inv_run:
  "attach_inv w \<Longrightarrow> attach_inv (surface_run validateId evs w)"
  by (induction evs arbitrary: w) (simp_all add: attach_inv_step)

lemma attach_inv_World0: "attach_inv World0"
  by (simp add: attach_inv_def World0_def Widget0_def)


subsection \<open>The claims about the guard\<close>

text \<open>
  Claim C6. For a binding whose task is \<open>RUNNING\<close> with \<^verbatim>\<open>task.terminal\<close> present
  (a string that the test \<^verbatim>\<open>!remoteTerminal\<close> lets through, that is a non-empty
  one), whose surface has a valid remote terminal id, and with neither guard flag set,
  the evaluation of the guard issues exactly one \<^verbatim>\<open>server.attach\<close>, with the pair
  made of the surface's remote terminal id and the task's remote terminal. The attach
  flag is set and one more attach is in flight; while that is so, evaluating the guard
  again, or applying the same task again, issues nothing.
\<close>

theorem update_issues_one_attach:
  assumes "task (widgets w t) = Some tk" and "task_state tk = RUNNING"
    and "task_terminal tk = Some remoteTerminal" and "remoteTerminal \<noteq> []"
    and "validateId (terminalId (widgets w t))"
    and "\<not> starting (widgets w t)" and "\<not> attachingToTask (widgets w t)"
  shows "fst (update validateId t w) = Inr ()
       \<and> effects (snd (update validateId t w))
           = effects w @ [Attach t (terminalId (widgets w t)) remoteTerminal]
       \<and> attachingToTask (widgets (snd (update validateId t w)) t)
       \<and> attachesInFlight (widgets (snd (update validateId t w)) t)
           = Suc (attachesInFlight (widgets w t))
       \<and> update validateId t (snd (update validateId t w))
           = (Inr (), snd (update validateId t w))
       \<and> applyTask validateId t tk (snd (update validateId t w))
           = (Inr (), snd (update validateId t w))"
proof -
  let ?w' = "server_attach t (terminalId (widgets w t), remoteTerminal)
               (modify t (\<lambda>x. x\<lparr>attachingToTask := True\<rparr>) w)"
  have u: "update validateId t w = (Inr (), ?w')"
    using assms by (rule update_attach)
  have a: "attachingToTask (widgets ?w' t)"
    by (simp add: server_attach_def modify_def emit_def)
  have k: "task (widgets ?w' t) = Some tk"
    using assms(1) by (simp add: server_attach_def modify_def emit_def)
  have n: "map_option task_state (task (widgets ?w' t)) \<noteq> Some CLOSED"
    using k assms(2) by simp
  have b: "update validateId t ?w' = (Inr (), ?w')"
    using a n by (simp add: update_busy)
  have m: "modify t (\<lambda>x. x\<lparr>task := Some tk\<rparr>) ?w' = ?w'"
    using k by (simp add: modify_same widget_task_same)
  have c: "applyTask validateId t tk ?w' = (Inr (), ?w')"
    by (simp add: applyTask_def m b)
  show ?thesis
    unfolding u using a b c
    by (simp add: server_attach_def modify_def emit_def)
qed

lemmas world_defs = world_t1_def World0_def Widget0_def options_t1_def task_t1_def
  closed_t1_def validateId0_def surface_step_def create_widget_def onWillCreateWidget_def
  is_task_terminal_def modify_def emit_def applyTask_def update_def start_def call_start_def
  attachToTask_def surface_start_def server_attach_def truthy_def dispose_def
  onDidDispose_def fire_onDidOpen_def fire_onDidOpenFailure_def reset_starting_def
  attach_then_def attach_catch_def Let_def

theorem update_issues_one_attach_witness:
  "effects (snd (update validateId0 0
      (surface_run validateId0 [TerminalIdChanged 0 7, ApplyTask 0 task_t1, AttachResolved 0] world_t1)))
   = [Attach 0 7 ''r1'', Attach 0 7 ''r1'']"
proof -
  let ?w = "surface_run validateId0 [TerminalIdChanged 0 7, ApplyTask 0 task_t1, AttachResolved 0] world_t1"
  have 1: "task (widgets ?w 0) = Some task_t1" by (simp add: world_defs)
  have 2: "task_state task_t1 = RUNNING" by (simp add: task_t1_def)
  have 3: "task_terminal task_t1 = Some ''r1''" by (simp add: task_t1_def)
  have 4: "''r1'' \<noteq> []" by simp
  have 5: "validateId0 (terminalId (widgets ?w 0))" by (simp add: world_defs)
  have 6: "\<not> starting (widgets ?w 0)" by (simp add: world_defs)
  have 7: "\<not> attachingToTask (widgets ?w 0)" by (simp add: world_defs)
  have 8: "effects ?w = [Attach 0 7 ''r1'']" by (simp add: world_defs)
  have 9: "terminalId (widgets ?w 0) = 7" by (simp add: world_defs)
  from update_issues_one_attach [where validateId = validateId0 and t = 0 and w = ?w, OF 1 2 3 4 5 6 7] 8 9
  show ?thesis by simp
qed


text \<open>
  Claim C4, as the code has it. For a binding whose task becomes \<open>RUNNING\<close> with a
  non-empty \<^verbatim>\<open>task.terminal\<close>, no valid remote terminal id on the surface and
  neither flag set, \<open>applyTask\<close> issues exactly one start and sets \<open>starting\<close>. While
  \<open>starting\<close> is set, evaluating the guard again, or applying any task that is not
  \<open>CLOSED\<close>, returns normally and issues nothing: no second start, and no error
  either. The re-entrancy error is raised, synchronously and without any effect, by a
  direct call of the wrapped \<^verbatim>\<open>start\<close>. The surface's open-failure signal clears
  \<open>starting\<close> before the guard is evaluated again, so with the id still invalid that
  evaluation issues a start of its own.
\<close>

theorem start_issued_once_then_busy:
  assumes "task_state tk = RUNNING" and "task_terminal tk = Some r" and "r \<noteq> []"
    and "\<not> validateId (terminalId (widgets w t))"
    and "\<not> starting (widgets w t)" and "\<not> attachingToTask (widgets w t)"
    and "w' = snd (applyTask validateId t tk w)"
  shows "fst (applyTask validateId t tk w) = Inr ()
       \<and> effects w' = effects w @ [Start t None]
       \<and> starting (widgets w' t)
       \<and> update validateId t w' = (Inr (), w')
       \<and> (task_state tk' \<noteq> CLOSED \<longrightarrow>
            fst (applyTask validateId t tk' w') = Inr ()
            \<and> effects (snd (applyTask validateId t tk' w')) = effects w')
       \<and> start t i w' = (Inl (AlreadyStarting (wid (widgets w t))), w')
       \<and> fst (fire_onDidOpenFailure validateId t w') = Inr ()
       \<and> effects (snd (fire_onDidOpenFailure validateId t w'))
            = effects w @ [Start t None, Start t None]"
proof -
  let ?w0 = "modify t (\<lambda>x. x\<lparr>task := Some tk\<rparr>) w"
  let ?w1 = "surface_start t None (modify t (\<lambda>x. x\<lparr>starting := True\<rparr>) ?w0)"
  have "update validateId t ?w0 = (Inr (), ?w1)"
    by (rule update_start [where tk = tk and r = r]) (use assms in \<open>simp_all add: modify_def\<close>)
  then have a: "applyTask validateId t tk w = (Inr (), ?w1)"
    by (simp add: applyTask_def)
  with assms(7) have w': "w' = ?w1" by simp
  have s: "starting (widgets w' t)"
    unfolding w' by (simp add: surface_start_def modify_def emit_def)
  have k: "task (widgets w' t) = Some tk"
    unfolding w' by (simp add: surface_start_def modify_def emit_def)
  have e: "effects w' = effects w @ [Start t None]"
    unfolding w' by (simp add: surface_start_def modify_def emit_def)
  have u: "update validateId t w' = (Inr (), w')"
    using s k assms(1) by (simp add: update_busy)
  have b: "fst (applyTask validateId t tk' w') = Inr ()
           \<and> effects (snd (applyTask validateId t tk' w')) = effects w'"
    if "task_state tk' \<noteq> CLOSED"
  proof -
    have "update validateId t (modify t (\<lambda>x. x\<lparr>task := Some tk'\<rparr>) w')
            = (Inr (), modify t (\<lambda>x. x\<lparr>task := Some tk'\<rparr>) w')"
      using s that by (intro update_busy) (simp_all add: modify_def)
    then show ?thesis by (simp add: applyTask_def modify_def)
  qed
  have d: "start t i w' = (Inl (AlreadyStarting (wid (widgets w t))), w')"
    using s unfolding w' by (simp add: start_def surface_start_def modify_def emit_def)
  let ?w2 = "reset_starting t w'"
  have p: "terminalId (widgets w' t) = terminalId (widgets w t)"
    "attachingToTask (widgets w' t) = attachingToTask (widgets w t)"
    unfolding w' by (simp_all add: surface_start_def modify_def emit_def)
  have "update validateId t ?w2
          = (Inr (), surface_start t None (modify t (\<lambda>x. x\<lparr>starting := True\<rparr>) ?w2))"
    by (rule update_start [where tk = tk and r = r])
      (use assms(1-6) k p in \<open>simp_all add: reset_starting_def modify_def\<close>)
  then have f: "fst (fire_onDidOpenFailure validateId t w') = Inr ()
       \<and> effects (snd (fire_onDidOpenFailure validateId t w'))
            = effects w @ [Start t None, Start t None]"
    using e by (simp add: fire_onDidOpenFailure_def surface_start_def modify_def emit_def
        reset_starting_def)
  show ?thesis using a e s u b d f by simp
qed

theorem start_issued_once_then_busy_witness:
  "effects (snd (applyTask validateId0 0 task_t1 world_t1)) = [Start 0 None]
   \<and> start 0 None (snd (applyTask validateId0 0 task_t1 world_t1))
       = (Inl (AlreadyStarting ''gitpod-task-terminal:t1''),
          snd (applyTask validateId0 0 task_t1 world_t1))
   \<and> effects (snd (applyTask validateId0 0 (task_t1\<lparr>task_state := OPENING\<rparr>)
        (snd (applyTask validateId0 0 task_t1 world_t1)))) = [Start 0 None]"
proof -
  have 1: "task_state task_t1 = RUNNING" by (simp add: task_t1_def)
  have 2: "task_terminal task_t1 = Some ''r1''" by (simp add: task_t1_def)
  have 3: "''r1'' \<noteq> []" by simp
  have 4: "\<not> validateId0 (terminalId (widgets world_t1 0))" by (simp add: world_defs)
  have 5: "\<not> starting (widgets world_t1 0)" by (simp add: world_defs)
  have 6: "\<not> attachingToTask (widgets world_t1 0)" by (simp add: world_defs)
  have 7: "effects world_t1 = []" by (simp add: world_defs)
  have 8: "wid (widgets world_t1 0) = ''gitpod-task-terminal:t1''" by (simp add: world_defs)
  have 9: "task_state (task_t1\<lparr>task_state := OPENING\<rparr>) \<noteq> CLOSED" by simp
  from start_issued_once_then_busy [where validateId = validateId0 and t = 0 and w = world_t1
      and tk = task_t1 and tk' = "task_t1\<lparr>task_state := OPENING\<rparr>" and i = None,
      OF 1 2 3 4 5 6 refl] 7 8 9
  show ?thesis by simp
qed

text \<open>
  Claim C4 as stated fails: with the start of the first evaluation still in flight,
  applying the task again returns normally instead of raising the re-entrancy error, and
  an open-failure signal of the surface makes the guard issue a second start.
\<close>

theorem reevaluation_while_starting_counterexample:
  "starting (widgets (snd (applyTask validateId0 0 task_t1 world_t1)) 0)
   \<and> startsInFlight (widgets (snd (applyTask validateId0 0 task_t1 world_t1)) 0) = 1
   \<and> fst (applyTask validateId0 0 task_t1 (snd (applyTask validateId0 0 task_t1 world_t1)))
       = Inr ()
   \<and> effects (snd (applyTask validateId0 0 task_t1
        (snd (applyTask validateId0 0 task_t1 world_t1)))) = [Start 0 None]
   \<and> fst (fire_onDidOpenFailure validateId0 0 (snd (applyTask validateId0 0 task_t1 world_t1)))
       = Inr ()
   \<and> effects (snd (fire_onDidOpenFailure validateId0 0
        (snd (applyTask validateId0 0 task_t1 world_t1)))) = [Start 0 None, Start 0 None]"
  by (simp add: world_defs)

text \<open>
  Claim C10. When the promise of the surface's own \<^verbatim>\<open>attachTerminal\<close> resolves with
  an id that is not valid, the wrapper calls \<^verbatim>\<open>createTerminal\<close> once and settles as
  that call does, so it returns the id of the new terminal process and not the invalid
  one; when the id is valid the wrapper returns it unchanged and creates nothing.
\<close>

theorem attachTerminal_recreates_on_invalid_id:
  "(\<not> validateId tid \<longrightarrow>
      attachTerminal validateId t i (Inr tid) created w
        = (created, emit (CreateTerminal t) (emit (SurfaceAttachTerminal t i) w))
      \<and> count_list (effects (snd (attachTerminal validateId t i (Inr tid) created w)))
            (CreateTerminal t) = Suc (count_list (effects w) (CreateTerminal t)))
   \<and> (validateId tid \<longrightarrow>
      attachTerminal validateId t i (Inr tid) created w
        = (Inr tid, emit (SurfaceAttachTerminal t i) w)
      \<and> count_list (effects (snd (attachTerminal validateId t i (Inr tid) created w)))
            (CreateTerminal t) = count_list (effects w) (CreateTerminal t))
   \<and> (fst (attachTerminal validateId t i attached created w) = Inr r \<and> \<not> validateId r \<longrightarrow>
      created = Inr r)"
proof -
  have a: "\<not> validateId tid \<longrightarrow>
      attachTerminal validateId t i (Inr tid) created w
        = (created, emit (CreateTerminal t) (emit (SurfaceAttachTerminal t i) w))
      \<and> count_list (effects (snd (attachTerminal validateId t i (Inr tid) created w)))
            (CreateTerminal t) = Suc (count_list (effects w) (CreateTerminal t))"
    by (simp add: attachTerminal_def emit_def)
  have b: "validateId tid \<longrightarrow>
      attachTerminal validateId t i (Inr tid) created w
        = (Inr tid, emit (SurfaceAttachTerminal t i) w)
      \<and> count_list (effects (snd (attachTerminal validateId t i (Inr tid) created w)))
            (CreateTerminal t) = count_list (effects w) (CreateTerminal t)"
    by (simp add: attachTerminal_def emit_def)
  have c: "created = Inr r"
    if "fst (attachTerminal validateId t i attached created w) = Inr r" and "\<not> validateId r"
  proof (cases attached)
    case (Inl e)
    with that(1) show ?thesis by (simp add: attachTerminal_def)
  next
    case (Inr x)
    show ?thesis
    proof (cases "validateId x")
      case True
      with Inr that show ?thesis by (auto simp add: attachTerminal_def)
    next
      case False
      with Inr that(1) show ?thesis by (simp add: attachTerminal_def)
    qed
  qed
  from a b c show ?thesis by blast
qed

theorem attachTerminal_recreates_on_invalid_id_witness:
  "attachTerminal validateId0 0 7 (Inr (- 1)) (Inr 8) world_t1
     = (Inr 8, emit (CreateTerminal 0) (emit (SurfaceAttachTerminal 0 7) world_t1))
   \<and> attachTerminal validateId0 0 7 (Inr 7) (Inr 8) world_t1
     = (Inr 7, emit (SurfaceAttachTerminal 0 7) world_t1)"
  using attachTerminal_recreates_on_invalid_id [of validateId0 "- 1" 0 7 "Inr 8" world_t1]
    attachTerminal_recreates_on_invalid_id [of validateId0 7 0 7 "Inr 8" world_t1]
  by (simp add: validateId0_def)


lemma update_sets_starting:
  assumes "\<not> starting (widgets w t)"
    and "starting (widgets (snd (update validateId t w)) t)"
  shows "effects (snd (update validateId t w)) = effects w @ [Start t None]"
  using assms
  by (auto simp add: update_def Let_def dispose_widgets_flags start_def attachToTask_def
      surface_start_def server_attach_def modify_def emit_def split: option.splits if_splits)

text \<open>
  Claim C5, as the code has it. \<open>attachingToTask\<close> is set exactly while a promise of
  \<^verbatim>\<open>server.attach\<close> is pending for the terminal (never more than one), in every
  world that events can lead to: both handlers chained on that promise reset it, the one
  for success returning normally and the one for failure rethrowing the failure.
  \<open>starting\<close> is set when the wrapper hands the call on to the surface's
  \<^verbatim>\<open>start\<close>, and it is reset by the first listener of the surface's open and
  open-failure signals: after such a signal it is set only if the evaluation of the guard
  that follows has issued a new start. The settling of the promise of \<^verbatim>\<open>start\<close>
  leaves it as it is.
\<close>

theorem guard_flags_lifecycle:
  "(attachingToTask (widgets (surface_run validateId evs World0) t)
      = (attachesInFlight (widgets (surface_run validateId evs World0) t) = 1))
   \<and> attachesInFlight (widgets (surface_run validateId evs World0) t) \<le> 1
   \<and> fst (attach_then t w) = Inr ()
   \<and> \<not> attachingToTask (widgets (snd (attach_then t w)) t)
   \<and> fst (attach_catch t e w) = Inl e
   \<and> \<not> attachingToTask (widgets (snd (attach_catch t e w)) t)
   \<and> (\<not> starting (widgets w t) \<longrightarrow>
        fst (start t i w) = Inr ()
        \<and> starting (widgets (snd (start t i w)) t)
        \<and> startsInFlight (widgets (snd (start t i w)) t) = Suc (startsInFlight (widgets w t)))
   \<and> \<not> starting (widgets (reset_starting t w) t)
   \<and> (starting (widgets (snd (fire_onDidOpen validateId t w)) t) \<longrightarrow>
        effects (snd (fire_onDidOpen validateId t w)) = effects w @ [Start t None])
   \<and> (starting (widgets (snd (fire_onDidOpenFailure validateId t w)) t) \<longrightarrow>
        effects (snd (fire_onDidOpenFailure validateId t w)) = effects w @ [Start t None])
   \<and> starting (widgets (surface_step validateId (StartSettled t) w) u)
        = starting (widgets w u)"
proof -
  have "attach_inv (surface_run validateId evs World0)"
    by (simp add: attach_inv_run attach_inv_World0)
  then have a: "(attachingToTask (widgets (surface_run validateId evs World0) t)
      = (attachesInFlight (widgets (surface_run validateId evs World0) t) = 1))
   \<and> attachesInFlight (widgets (surface_run validateId evs World0) t) \<le> 1"
    by (simp add: attach_inv_def)
  have b: "fst (attach_then t w) = Inr ()
   \<and> \<not> attachingToTask (widgets (snd (attach_then t w)) t)
   \<and> fst (attach_catch t e w) = Inl e
   \<and> \<not> attachingToTask (widgets (snd (attach_catch t e w)) t)"
    by (simp add: attach_then_def attach_catch_def modify_def)
  have c: "\<not> starting (widgets w t) \<longrightarrow>
        fst (start t i w) = Inr ()
        \<and> starting (widgets (snd (start t i w)) t)
        \<and> startsInFlight (widgets (snd (start t i w)) t) = Suc (startsInFlight (widgets w t))"
    by (simp add: start_def surface_start_def modify_def emit_def)
  have r: "\<not> starting (widgets (reset_starting t w) t)"
    by (simp add: reset_starting_def modify_def)
  have er: "effects (reset_starting t w) = effects w"
    by (simp add: reset_starting_def modify_def)
  have d: "starting (widgets (snd (fire_onDidOpen validateId t w)) t) \<longrightarrow>
        effects (snd (fire_onDidOpen validateId t w)) = effects w @ [Start t None]"
    using update_sets_starting [OF r, of validateId] er by (simp add: fire_onDidOpen_def)
  have f: "starting (widgets (snd (fire_onDidOpenFailure validateId t w)) t) \<longrightarrow>
        effects (snd (fire_onDidOpenFailure validateId t w)) = effects w @ [Start t None]"
    using update_sets_starting [OF r, of validateId] er by (simp add: fire_onDidOpenFailure_def)
  have g: "starting (widgets (surface_step validateId (StartSettled t) w) u)
        = starting (widgets w u)"
    by (simp add: surface_step_def modify_def)
  from a b c r d f g show ?thesis by simp
qed

theorem guard_flags_lifecycle_witness:
  "attachingToTask (widgets
      (surface_run validateId0
         [WidgetCreated options_t1 False, TerminalIdChanged 0 7, ApplyTask 0 task_t1] World0) 0)
   \<and> attachesInFlight (widgets
      (surface_run validateId0
         [WidgetCreated options_t1 False, TerminalIdChanged 0 7, ApplyTask 0 task_t1] World0) 0) = 1
   \<and> starting (widgets (snd (start 0 None world_t1)) 0)
   \<and> starting (widgets (snd (fire_onDidOpenFailure validateId0 0
        (snd (applyTask validateId0 0 task_t1 world_t1)))) 0)
   \<and> effects (snd (fire_onDidOpenFailure validateId0 0
        (snd (applyTask validateId0 0 task_t1 world_t1)))) = [Start 0 None, Start 0 None]"
proof -
  let ?evs = "[WidgetCreated options_t1 False, TerminalIdChanged 0 7, ApplyTask 0 task_t1]"
  let ?w = "snd (applyTask validateId0 0 task_t1 world_t1)"
  have 1: "attachingToTask (widgets (surface_run validateId0 ?evs World0) 0)"
    by (simp add: world_defs)
  have 2: "\<not> starting (widgets world_t1 0)" by (simp add: world_defs)
  have 3: "starting (widgets (snd (fire_onDidOpenFailure validateId0 0 ?w)) 0)"
    by (simp add: world_defs)
  have 4: "effects ?w = [Start 0 None]" by (simp add: world_defs)
  from guard_flags_lifecycle [where validateId = validateId0 and evs = ?evs and t = 0
      and w = world_t1 and i = None]
    guard_flags_lifecycle [where validateId = validateId0 and t = 0 and w = ?w]
    1 2 3 4
  show ?thesis by simp
qed

text \<open>
  Claim C5 as stated fails for \<open>starting\<close>: the wrapper chains nothing on the promise
  of \<^verbatim>\<open>start\<close>, so when that promise settles without the surface having fired a
  signal the flag stays set with no start in flight.
\<close>

theorem starting_survives_settled_start_counterexample:
  "startsInFlight (widgets
      (surface_run validateId0 [ApplyTask 0 task_t1] world_t1) 0) = 1
   \<and> starting (widgets
      (surface_run validateId0 [ApplyTask 0 task_t1, StartSettled 0] world_t1) 0)
   \<and> startsInFlight (widgets
      (surface_run validateId0 [ApplyTask 0 task_t1, StartSettled 0] world_t1) 0) = 0"
  by (simp add: world_defs)






section \<open>Properties of the update queue\<close>

lemma reaction_ids_append [simp]:
  "reaction_ids (js @ ks) = reaction_ids js @ reaction_ids ks"
  by (induction js rule: reaction_ids.induct) simp_all

lemma queue_inv_System0: "queue_inv System0"
  by (simp add: queue_inv_def System0_def)

lemma queue_inv_cong:
  assumes "queue_inv s"
    and "status s' = status s" and "reactions s' = reactions s"
    and "nextPromise s' = nextPromise s" and "updateQueue s' = updateQueue s"
    and "reaction_ids (jobs s') = reaction_ids (jobs s)" and "history s' = history s"
  shows "queue_inv s'"
  using assms unfolding queue_inv_def by simp

lemma queue_fields:
  "fst (queue f s) = nextPromise s"
  "nextPromise (snd (queue f s)) = Suc (nextPromise s)"
  "updateQueue (snd (queue f s)) = nextPromise s"
  "status (snd (queue f s)) = status s"
  "history (snd (queue f s)) = history s"
  "world (snd (queue f s)) = world s"
  "layout (snd (queue f s)) = layout s"
  "pendingInitialTasks (snd (queue f s)) = pendingInitialTasks s"
  "reactions (snd (queue f s)) =
     (if status s (updateQueue s) = Pending
      then (reactions s)(updateQueue s := reactions s (updateQueue s) @ [(f, f, nextPromise s)])
      else reactions s)"
  "jobs (snd (queue f s)) =
     (if status s (updateQueue s) = Pending then jobs s
      else jobs s @ [Reaction f (nextPromise s)])"
  by (simp_all add: queue_def then_promise_def Let_def reaction_job_def)

lemma settled_iff:
  assumes "queue_inv s"
  shows "(status s p \<noteq> Pending) = (if p = 0 then status s 0 \<noteq> Pending else p \<le> length (history s))"
  using assms unfolding queue_inv_def by auto

lemma queue_inv_queue:
  assumes "queue_inv s"
  shows "queue_inv (snd (queue f s))"
proof -
  let ?s' = "snd (queue f s)"
  let ?u = "updateQueue s"
  let ?r = "length (history s)"
  from assms have n: "nextPromise s = Suc ?u" and h: "history s = [1..<Suc ?r]"
    and r: "?r < nextPromise s" and h0: "status s 0 = Pending \<longrightarrow> history s = []"
    and nr: "status s 0 \<noteq> Rejected"
    and st: "\<And>p. 0 < p \<Longrightarrow> (status s p \<noteq> Pending) = (p \<le> ?r)"
    and r1: "\<And>p. status s p = Pending \<Longrightarrow> Suc p < nextPromise s \<Longrightarrow>
               \<exists>f g. reactions s p = [(f, g, Suc p)]"
    and r0: "\<And>p. status s p \<noteq> Pending \<or> nextPromise s \<le> Suc p \<Longrightarrow> reactions s p = []"
    and j: "reaction_ids (jobs s) =
           (if status s ?r \<noteq> Pending \<and> Suc ?r < nextPromise s then [Suc ?r] else [])"
    unfolding queue_inv_def by blast+
  have ru: "reactions s ?u = []" using r0 [of ?u] n by simp
  have a: "\<exists>f' g. reactions ?s' p = [(f', g, Suc p)]"
    if "status ?s' p = Pending" and "Suc p < nextPromise ?s'" for p
  proof (cases "p = ?u")
    case True
    with that ru n show ?thesis by (simp add: queue_fields)
  next
    case False
    with that n have "Suc p < nextPromise s" by (simp add: queue_fields)
    with that r1 [of p] False show ?thesis by (simp add: queue_fields)
  qed
  have b: "reactions ?s' p = []"
    if "status ?s' p \<noteq> Pending \<or> nextPromise ?s' \<le> Suc p" for p
  proof -
    from that n have "status s p \<noteq> Pending \<or> nextPromise s \<le> Suc p"
      by (auto simp add: queue_fields)
    then have "reactions s p = []" by (rule r0)
    moreover from that n have "p = ?u \<Longrightarrow> status s ?u \<noteq> Pending"
      by (auto simp add: queue_fields)
    ultimately show ?thesis by (auto simp add: queue_fields)
  qed
  have c: "reaction_ids (jobs ?s') =
           (if status ?s' (length (history ?s')) \<noteq> Pending
               \<and> Suc (length (history ?s')) < nextPromise ?s'
            then [Suc (length (history ?s'))] else [])"
  proof (cases "status s ?u = Pending")
    case True
    have "?r = ?u \<Longrightarrow> status s ?r = Pending" using True by simp
    with True j n r show ?thesis
      by (auto simp add: queue_fields less_Suc_eq)
  next
    case False
    have "?u \<le> ?r"
    proof (cases "?u = 0")
      case True then show ?thesis by simp
    next
      case False
      with st [of ?u] \<open>status s ?u \<noteq> Pending\<close> show ?thesis by simp
    qed
    with r n have e: "?r = ?u" by simp
    with False j n show ?thesis
      by (simp add: queue_fields)
  qed
  show ?thesis
    unfolding queue_inv_def
    using n h r h0 nr st a b c
    by (simp add: queue_fields)
qed


lemma queue_inv_chain:
  "chain_of s' = chain_of s \<Longrightarrow> queue_inv s' = queue_inv s"
  by (simp add: chain_of_def queue_inv_def)

lemma chain_of_world [simp]:
  "chain_of (s\<lparr>world := w\<rparr>) = chain_of s"
  "chain_of (s\<lparr>layout := l\<rparr>) = chain_of s"
  "chain_of (s\<lparr>world := w, layout := l\<rparr>) = chain_of s"
  by (simp_all add: chain_of_def)

lemma chain_of_settle:
  "chain_of s' = chain_of s \<Longrightarrow> chain_of (settle p st s') = chain_of (settle p st s)"
  by (simp add: chain_of_def settle_def)

lemma chain_of_layout_finish:
  "chain_of (layout_finish s) = chain_of (settle 0 Fulfilled s)"
proof -
  have "chain_of (settle 0 Fulfilled (s\<lparr>world := emit LayoutResolved (world s)\<rparr>))
          = chain_of (settle 0 Fulfilled s)"
    by (rule chain_of_settle) simp
  then show ?thesis by (simp add: layout_finish_def Let_def)
qed

lemma chain_of_layout_loop:
  "chain_of (layout_loop tasks ref s) = chain_of s
   \<or> chain_of (layout_loop tasks ref s) = chain_of (settle 0 Fulfilled s)"
proof (induction tasks ref s rule: layout_loop.induct)
  case (1 ref s)
  then show ?case by (simp add: chain_of_layout_finish)
next
  case (2 tk tasks ref s)
  have l: "chain_of (settle 0 Fulfilled (log_layout_failure TypeError s))
             = chain_of (settle 0 Fulfilled s)"
    by (rule chain_of_settle) (simp add: log_layout_failure_def)
  have l': "chain_of (log_layout_failure TypeError s) = chain_of s"
    by (simp add: log_layout_failure_def)
  show ?case
  proof (cases "task_state tk = CLOSED")
    case True
    with 2 show ?thesis by simp
  next
    case open_task: False
    show ?thesis
    proof (cases "taskTerminals (world s) (toTerminalId (task_id tk))")
      case (Some terminal)
      with 2 open_task show ?thesis by simp
    next
      case None
      show ?thesis
      proof (cases "task_presentation tk")
        case no_p: None
        from "2.IH" open_task None no_p l l' show ?thesis by auto
      next
        case (Some p)
        with open_task None show ?thesis by simp
      qed
    qed
  qed
qed

lemma chain_of_resume_layout:
  "chain_of (resume_layout s) = chain_of s
   \<or> chain_of (resume_layout s) = chain_of (settle 0 Fulfilled s)"
proof -
  have loop: "chain_of (layout_loop tasks ref s') = chain_of s
     \<or> chain_of (layout_loop tasks ref s') = chain_of (settle 0 Fulfilled s)"
    if "chain_of s' = chain_of s" for tasks ref s'
    using chain_of_layout_loop [of tasks ref s'] that chain_of_settle [OF that, of 0 Fulfilled]
    by auto
  show ?thesis
    unfolding resume_layout_def
    by (auto split: layout_pc.splits option.splits sum.splits prod.splits
        intro!: loop simp add: log_layout_failure_def)
qed

lemma settle_fields:
  "nextPromise (settle p st s) = nextPromise s"
  "updateQueue (settle p st s) = updateQueue s"
  "history (settle p st s) = history s"
  "world (settle p st s) = world s"
  "layout (settle p st s) = layout s"
  "pendingInitialTasks (settle p st s) = pendingInitialTasks s"
  "status (settle p st s) = (if status s p = Pending then (status s)(p := st) else status s)"
  "reactions (settle p st s) =
     (if status s p = Pending then (reactions s)(p := []) else reactions s)"
  "jobs (settle p st s) =
     (if status s p = Pending then jobs s @ map (reaction_job st) (reactions s p) else jobs s)"
  by (simp_all add: settle_def)

lemma queue_invD:
  assumes "queue_inv s"
  shows "nextPromise s = Suc (updateQueue s)"
    and "history s = [1..<Suc (length (history s))]"
    and "length (history s) < nextPromise s"
    and "status s 0 = Pending \<Longrightarrow> history s = []"
    and "status s 0 \<noteq> Rejected"
    and "\<And>p. 0 < p \<Longrightarrow> (status s p \<noteq> Pending) = (p \<le> length (history s))"
    and "\<And>p. status s p = Pending \<Longrightarrow> Suc p < nextPromise s \<Longrightarrow>
               \<exists>f g. reactions s p = [(f, g, Suc p)]"
    and "\<And>p. status s p \<noteq> Pending \<or> nextPromise s \<le> Suc p \<Longrightarrow> reactions s p = []"
    and "reaction_ids (jobs s) =
           (if status s (length (history s)) \<noteq> Pending \<and> Suc (length (history s)) < nextPromise s
            then [Suc (length (history s))] else [])"
  using assms unfolding queue_inv_def by blast+

lemma queue_invI:
  assumes "nextPromise s = Suc (updateQueue s)"
    and "history s = [1..<Suc (length (history s))]"
    and "length (history s) < nextPromise s"
    and "status s 0 = Pending \<Longrightarrow> history s = []"
    and "status s 0 \<noteq> Rejected"
    and "\<And>p. 0 < p \<Longrightarrow> (status s p \<noteq> Pending) = (p \<le> length (history s))"
    and "\<And>p. status s p = Pending \<Longrightarrow> Suc p < nextPromise s \<Longrightarrow>
               \<exists>f g. reactions s p = [(f, g, Suc p)]"
    and "\<And>p. status s p \<noteq> Pending \<or> nextPromise s \<le> Suc p \<Longrightarrow> reactions s p = []"
    and "reaction_ids (jobs s) =
           (if status s (length (history s)) \<noteq> Pending \<and> Suc (length (history s)) < nextPromise s
            then [Suc (length (history s))] else [])"
  shows "queue_inv s"
  unfolding queue_inv_def using assms by blast

lemma reaction_ids_map_reaction_job:
  "reaction_ids (map (reaction_job st) rs) = map (\<lambda>r. snd (snd r)) rs"
  by (induction rs) (auto simp add: reaction_job_def)

lemma queue_inv_settle_head:
  assumes "queue_inv s"
  shows "queue_inv (settle 0 Fulfilled s)"
proof (cases "status s 0 = Pending")
  case False
  with assms show ?thesis by (simp add: settle_def)
next
  case True
  let ?s' = "settle 0 Fulfilled s"
  note d = queue_invD [OF assms]
  from d(4) True have h: "history s = []" by simp
  have j: "reaction_ids (jobs s) = []" using d(9) True h by simp
  have r0: "reaction_ids (map (reaction_job Fulfilled) (reactions s 0))
              = (if Suc 0 < nextPromise s then [Suc 0] else [])"
  proof (cases "Suc 0 < nextPromise s")
    case True
    with d(7) [of 0] \<open>status s 0 = Pending\<close> obtain f g where "reactions s 0 = [(f, g, Suc 0)]"
      by auto
    with True show ?thesis by (simp add: reaction_job_def)
  next
    case False
    with d(8) [of 0] have "reactions s 0 = []" by simp
    with False show ?thesis by simp
  qed
  have a: "\<exists>f g. reactions ?s' p = [(f, g, Suc p)]"
    if "status ?s' p = Pending" and "Suc p < nextPromise ?s'" for p
    using that True d(7) [of p] by (auto simp add: settle_fields split: if_splits)
  have b: "reactions ?s' p = []"
    if "status ?s' p \<noteq> Pending \<or> nextPromise ?s' \<le> Suc p" for p
    using that True d(8) [of p] by (auto simp add: settle_fields split: if_splits)
  have len: "length (history ?s') = 0" using h by (simp add: settle_fields)
  have s0: "status ?s' 0 = Fulfilled" using True by (simp add: settle_fields)
  have np: "nextPromise ?s' = nextPromise s" by (simp add: settle_fields)
  have jb: "reaction_ids (jobs ?s') = (if Suc 0 < nextPromise s then [Suc 0] else [])"
    using True j r0 by (simp add: settle_fields)
  show ?thesis
  proof (rule queue_invI)
    show "nextPromise ?s' = Suc (updateQueue ?s')"
      using d(1) by (simp add: settle_fields)
    show "history ?s' = [1..<Suc (length (history ?s'))]"
      using h by (simp add: settle_fields)
    show "length (history ?s') < nextPromise ?s'"
      using d(3) by (simp add: settle_fields)
    show "history ?s' = []" if "status ?s' 0 = Pending"
      using h by (simp add: settle_fields)
    show "status ?s' 0 \<noteq> Rejected" using s0 by simp
    show "(status ?s' p \<noteq> Pending) = (p \<le> length (history ?s'))" if "0 < p" for p
      using that True d(6) [of p] by (simp add: settle_fields)
    show "\<exists>f g. reactions ?s' p = [(f, g, Suc p)]"
      if "status ?s' p = Pending" and "Suc p < nextPromise ?s'" for p
      using that by (rule a)
    show "reactions ?s' p = []"
      if "status ?s' p \<noteq> Pending \<or> nextPromise ?s' \<le> Suc p" for p
      using that by (rule b)
    show "reaction_ids (jobs ?s') =
           (if status ?s' (length (history ?s')) \<noteq> Pending
               \<and> Suc (length (history ?s')) < nextPromise ?s'
            then [Suc (length (history ?s'))] else [])"
      unfolding len s0 np jb by simp
  qed
qed

lemma queue_inv_resume_layout:
  assumes "queue_inv s"
  shows "queue_inv (resume_layout s)"
proof -
  from chain_of_resume_layout [of s] show ?thesis
  proof
    assume "chain_of (resume_layout s) = chain_of s"
    then have "queue_inv (resume_layout s) = queue_inv s" by (rule queue_inv_chain)
    with assms show ?thesis by simp
  next
    assume "chain_of (resume_layout s) = chain_of (settle 0 Fulfilled s)"
    then have "queue_inv (resume_layout s) = queue_inv (settle 0 Fulfilled s)"
      by (rule queue_inv_chain)
    with queue_inv_settle_head [OF assms] show ?thesis by simp
  qed
qed

lemma queue_inv_jobs_tail:
  assumes "queue_inv s" and "jobs s = ResumeLayout # js"
  shows "queue_inv (s\<lparr>jobs := js\<rparr>)"
  by (rule queue_inv_cong [OF assms(1)]) (simp_all add: assms(2))

lemma queue_inv_reaction:
  assumes "queue_inv s" and "jobs s = Reaction f q # js" and "st \<noteq> Pending"
  shows "queue_inv (settle q st (s\<lparr>jobs := js, world := w', history := history s @ [q]\<rparr>))"
proof -
  let ?r = "length (history s)"
  let ?s1 = "s\<lparr>jobs := js, world := w', history := history s @ [q]\<rparr>"
  let ?s' = "settle q st ?s1"
  note d = queue_invD [OF assms(1)]
  from d(9) assms(2) have c: "status s ?r \<noteq> Pending" "Suc ?r < nextPromise s"
    and q: "q = Suc ?r" and js: "reaction_ids js = []"
    by (auto split: if_splits)
  from d(6) [of q] q have p: "status s q = Pending" by simp
  have h0: "status s 0 \<noteq> Pending"
  proof (cases "?r = 0")
    case True with c(1) show ?thesis by simp
  next
    case False
    then have "history s \<noteq> []" by simp
    with d(4) show ?thesis by blast
  qed
  have hist: "history ?s' = [1..<Suc (length (history ?s'))]"
    using d(2) q by (simp add: settle_fields)
  have rq: "reaction_ids (map (reaction_job st) (reactions s q))
              = (if Suc q < nextPromise s then [Suc q] else [])"
  proof (cases "Suc q < nextPromise s")
    case True
    with d(7) [of q] p obtain f' g where "reactions s q = [(f', g, Suc q)]" by auto
    with True show ?thesis by (simp add: reaction_job_def)
  next
    case False
    with d(8) [of q] have "reactions s q = []" by simp
    with False show ?thesis by simp
  qed
  have a: "\<exists>f g. reactions ?s' p = [(f, g, Suc p)]"
    if "status ?s' p = Pending" and "Suc p < nextPromise ?s'" for p
    using that p d(7) [of p] assms(3) by (auto simp add: settle_fields split: if_splits)
  have b: "reactions ?s' p = []"
    if "status ?s' p \<noteq> Pending \<or> nextPromise ?s' \<le> Suc p" for p
    using that p d(8) [of p] by (auto simp add: settle_fields split: if_splits)
  have st': "(status ?s' p \<noteq> Pending) = (p \<le> length (history ?s'))" if "0 < p" for p
    using that p q d(6) [of p] assms(3) by (auto simp add: settle_fields)
  have len: "length (history ?s') = q"
    using q by (simp add: settle_fields)
  have sq: "status ?s' q = st"
    using p by (simp add: settle_fields)
  have np: "nextPromise ?s' = nextPromise s" by (simp add: settle_fields)
  have jb: "reaction_ids (jobs ?s') = (if Suc q < nextPromise s then [Suc q] else [])"
    using p js rq by (simp add: settle_fields)
  show ?thesis
  proof (rule queue_invI)
    show "nextPromise ?s' = Suc (updateQueue ?s')"
      using d(1) by (simp add: settle_fields)
    show "history ?s' = [1..<Suc (length (history ?s'))]" by (rule hist)
    show "length (history ?s') < nextPromise ?s'"
      using len np q c(2) by simp
    show "history ?s' = []" if "status ?s' 0 = Pending"
      using that h0 q by (simp add: settle_fields split: if_splits)
    show "status ?s' 0 \<noteq> Rejected"
      using d(5) q p by (simp add: settle_fields)
    show "(status ?s' p \<noteq> Pending) = (p \<le> length (history ?s'))" if "0 < p" for p
      using that by (rule st')
    show "\<exists>f g. reactions ?s' p = [(f, g, Suc p)]"
      if "status ?s' p = Pending" and "Suc p < nextPromise ?s'" for p
      using that by (rule a)
    show "reactions ?s' p = []"
      if "status ?s' p \<noteq> Pending \<or> nextPromise ?s' \<le> Suc p" for p
      using that by (rule b)
    show "reaction_ids (jobs ?s') =
           (if status ?s' (length (history ?s')) \<noteq> Pending
               \<and> Suc (length (history ?s')) < nextPromise ?s'
            then [Suc (length (history ?s'))] else [])"
      unfolding len sq np jb using assms(3) by simp
  qed
qed

lemma queue_inv_run_job:
  assumes "queue_inv s"
  shows "queue_inv (run_job s)"
proof (cases "jobs s")
  case Nil
  with assms show ?thesis by (simp add: run_job_def)
next
  case (Cons j js)
  show ?thesis
  proof (cases j)
    case (Reaction f q)
    obtain r w' where fw: "f (world s) = (r, w')" by (cases "f (world s)")
    have "(case r of Inl _ \<Rightarrow> Rejected | Inr _ \<Rightarrow> Fulfilled) \<noteq> Pending"
      by (cases r) simp_all
    with assms Cons Reaction
    have "queue_inv (settle q (case r of Inl _ \<Rightarrow> Rejected | Inr _ \<Rightarrow> Fulfilled)
            (s\<lparr>jobs := js, world := w', history := history s @ [q]\<rparr>))"
      by (intro queue_inv_reaction) simp_all
    with Cons Reaction fw show ?thesis by (simp add: run_job_def)
  next
    case ResumeLayout
    with assms Cons have "queue_inv (s\<lparr>jobs := js\<rparr>)" by (simp add: queue_inv_jobs_tail)
    then have "queue_inv (resume_layout (s\<lparr>jobs := js\<rparr>))" by (rule queue_inv_resume_layout)
    with Cons ResumeLayout show ?thesis by (simp add: run_job_def)
  qed
qed

lemma queue_inv_step:
  assumes "queue_inv s"
  shows "queue_inv (step validateId ev s)"
proof (cases ev)
  case (Snapshot updated)
  have "queue_inv (resolve_pendingInitialTasks updated s)"
    by (rule queue_inv_cong [OF assms])
      (simp_all add: resolve_pendingInitialTasks_def split: option.splits)
  then show ?thesis using Snapshot by (simp add: onDidChange_def queue_inv_queue)
next
  case LayoutInitialized
  have "queue_inv (onDidInitializeLayout s)"
    by (rule queue_inv_cong [OF assms]) (simp_all add: onDidInitializeLayout_def)
  with LayoutInitialized assms show ?thesis by simp
next
  case Microtask
  then show ?thesis using assms by (simp add: queue_inv_run_job)
next
  case (NewTerminalSettled a)
  have "queue_inv (newTerminal_settled a s)"
    by (rule queue_inv_cong [OF assms])
      (simp_all add: newTerminal_settled_def
        split: layout_pc.splits option.splits sum.splits prod.splits)
  with NewTerminalSettled show ?thesis by simp
next
  case (Surface sev)
  have "queue_inv (s\<lparr>world := surface_step validateId sev (world s)\<rparr>)"
    by (rule queue_inv_cong [OF assms]) simp_all
  with Surface show ?thesis by simp
next
  case (Enqueue f)
  then show ?thesis using assms by (simp add: queue_inv_queue)
qed

lemma queue_inv_run:
  "queue_inv s \<Longrightarrow> queue_inv (run validateId evs s)"
  by (induction evs arbitrary: s) (simp_all add: queue_inv_step)


lemma queue_inv_reachable: "queue_inv (run validateId evs System0)"
  by (simp add: queue_inv_run queue_inv_System0)

lemma nextPromise_resume_layout: "nextPromise (resume_layout s) = nextPromise s"
  using chain_of_resume_layout [of s] by (auto simp add: chain_of_def settle_fields)

lemma nextPromise_step: "nextPromise s \<le> nextPromise (step validateId ev s)"
proof (cases ev)
  case Microtask
  show ?thesis
  proof (cases "jobs s")
    case Nil
    with Microtask show ?thesis by (simp add: run_job_def)
  next
    case (Cons j js)
    with Microtask show ?thesis
      by (cases j)
        (simp_all add: run_job_def settle_fields nextPromise_resume_layout split: prod.splits)
  qed
qed (simp_all add: onDidChange_def queue_fields resolve_pendingInitialTasks_def
      onDidInitializeLayout_def newTerminal_settled_def
      split: option.splits layout_pc.splits sum.splits prod.splits)

lemma nextPromise_run: "nextPromise s \<le> nextPromise (run validateId evs s)"
proof (induction evs arbitrary: s)
  case Nil
  show ?case by simp
next
  case (Cons ev evs)
  have "nextPromise s \<le> nextPromise (step validateId ev s)" by (rule nextPromise_step)
  also have "\<dots> \<le> nextPromise (run validateId evs (step validateId ev s))" by (rule Cons)
  finally show ?case by simp
qed

lemma upt_split: "i \<le> j \<Longrightarrow> j \<le> k \<Longrightarrow> [i..<k] = [i..<j] @ [j..<k]"
  using upt_add_eq_append [of i j "k - j"] by simp

lemma history_split:
  assumes "history s = [1..<Suc (length (history s))]"
    and "0 < q1" and "q1 < q2" and "q2 \<in> set (history s)"
  shows "\<exists>xs ys zs. history s = xs @ [q1] @ ys @ [q2] @ zs"
proof -
  let ?r = "length (history s)"
  from assms(1,4) have "q2 \<in> {1..<Suc ?r}" by (metis set_upt)
  then have le: "q2 \<le> ?r" by simp
  have "[1..<Suc ?r] = [1..<q1] @ [q1..<Suc ?r]"
    using assms(2,3) le by (intro upt_split) simp_all
  also have "[q1..<Suc ?r] = q1 # [Suc q1..<Suc ?r]"
    using assms(3) le by (intro upt_conv_Cons) simp
  also have "[Suc q1..<Suc ?r] = [Suc q1..<q2] @ [q2..<Suc ?r]"
    using assms(3) le by (intro upt_split) simp_all
  also have "[q2..<Suc ?r] = q2 # [Suc q2..<Suc ?r]"
    using le by (intro upt_conv_Cons) simp
  finally have "[1..<Suc ?r] = [1..<q1] @ [q1] @ [Suc q1..<q2] @ [q2] @ [Suc q2..<Suc ?r]"
    by simp
  with assms(1) show ?thesis by metis
qed

lemma jobs_resume_layout_settled:
  assumes "status s 0 \<noteq> Pending"
  shows "jobs (resume_layout s) = jobs s" and "history (resume_layout s) = history s"
    and "status (resume_layout s) = status s"
  using chain_of_resume_layout [of s] assms by (auto simp add: chain_of_def settle_def)

lemma run_job_progress:
  assumes "queue_inv s" and "status s 0 \<noteq> Pending"
  shows "status (run_job s) 0 \<noteq> Pending"
    and "nextPromise (run_job s) = nextPromise s"
    and "backlog (run_job s) \<le> backlog s - 1"
    and "set (history s) \<subseteq> set (history (run_job s))"
proof -
  note d = queue_invD [OF assms(1)]
  have "status (run_job s) 0 \<noteq> Pending \<and> nextPromise (run_job s) = nextPromise s
        \<and> backlog (run_job s) \<le> backlog s - 1
        \<and> set (history s) \<subseteq> set (history (run_job s))"
  proof (cases "jobs s")
    case Nil
    with d(9) assms(2) d(3) d(4) have "nextPromise s = Suc (length (history s))"
      by (cases "length (history s) = 0") (auto split: if_splits simp add: d(6))
    with Nil assms(2) show ?thesis by (simp add: run_job_def backlog_def)
  next
    case (Cons j js)
    show ?thesis
    proof (cases j)
      case ResumeLayout
      with Cons assms(2) show ?thesis
        by (simp add: run_job_def backlog_def jobs_resume_layout_settled
            nextPromise_resume_layout)
    next
      case (Reaction f q)
      obtain r w' where fw: "f (world s) = (r, w')" by (cases "f (world s)")
      let ?st = "case r of Inl _ \<Rightarrow> Rejected | Inr _ \<Rightarrow> Fulfilled"
      let ?s1 = "s\<lparr>jobs := js, world := w', history := history s @ [q]\<rparr>"
      from d(9) Cons Reaction have q: "q = Suc (length (history s))"
        and lt: "Suc (length (history s)) < nextPromise s"
        by (auto split: if_splits)
      from d(6) [of q] q have p: "status s q = Pending" by simp
      have rl: "length (reactions s q) \<le> 1"
        using d(7) [of q] d(8) [of q] p by (cases "Suc q < nextPromise s") auto
      have e: "run_job s = settle q ?st ?s1"
        using Cons Reaction fw by (simp add: run_job_def)
      have "q \<noteq> 0" using q by simp
      then have "status (settle q ?st ?s1) 0 \<noteq> Pending"
        using assms(2) by (simp add: settle_fields)
      moreover have "length (jobs (settle q ?st ?s1)) \<le> length (jobs s)"
        using Cons p rl by (simp add: settle_fields)
      moreover have "nextPromise (settle q ?st ?s1) - Suc (length (history (settle q ?st ?s1)))
              < nextPromise s - Suc (length (history s))"
        using lt by (simp add: settle_fields)
      ultimately show ?thesis
        unfolding e backlog_def by (auto simp add: settle_fields)
    qed
  qed
  then show "status (run_job s) 0 \<noteq> Pending"
    and "nextPromise (run_job s) = nextPromise s"
    and "backlog (run_job s) \<le> backlog s - 1"
    and "set (history s) \<subseteq> set (history (run_job s))"
    by blast+
qed

lemma drain:
  assumes "queue_inv s" and "status s 0 \<noteq> Pending" and "backlog s \<le> n"
  shows "history (run validateId (replicate n Microtask) s) = [1..<nextPromise s]"
  using assms
proof (induction n arbitrary: s)
  case 0
  then have "nextPromise s - Suc (length (history s)) = 0" by (simp add: backlog_def)
  with queue_invD(3) [OF "0.prems"(1)] have "nextPromise s = Suc (length (history s))" by simp
  with queue_invD(2) [OF "0.prems"(1)] show ?case by simp
next
  case (Suc n)
  note p = run_job_progress [OF Suc.prems(1,2)]
  have "history (run validateId (replicate n Microtask) (run_job s)) = [1..<nextPromise (run_job s)]"
    using Suc.prems p(3) by (intro Suc.IH queue_inv_run_job p(1)) simp_all
  then show ?case by (simp add: p(2))
qed

subsection \<open>The claim about the update queue\<close>

lemma queue_twice_idle:
  assumes "queue_inv s" and "jobs s = []" and "status s (updateQueue s) \<noteq> Pending"
  shows "world (run validateId [Microtask, Microtask] (snd (queue f2 (snd (queue f1 s)))))
           = snd (f2 (snd (f1 (world s))))"
    and "history (run validateId [Microtask, Microtask] (snd (queue f2 (snd (queue f1 s)))))
           = history s @ [nextPromise s, Suc (nextPromise s)]"
proof -
  let ?n = "nextPromise s"
  let ?sa = "snd (queue f1 s)"
  let ?sb = "snd (queue f2 ?sa)"
  note d = queue_invD [OF assms(1)]
  have pn: "status s ?n = Pending" using d(6) [of ?n] d(3) by simp
  have rn: "reactions s ?n = []" using d(8) [of ?n] by simp
  have ja: "jobs ?sa = [Reaction f1 ?n]"
    using assms(2,3) by (simp add: queue_fields)
  have jb: "jobs ?sb = [Reaction f1 ?n]"
    using ja pn by (simp add: queue_fields)
  have rb: "reactions ?sb ?n = [(f2, f2, Suc ?n)]"
    using pn rn assms(3) by (simp add: queue_fields)
  have sb: "status ?sb ?n = Pending" "status ?sb (Suc ?n) = Pending"
    using pn d(6) [of "Suc ?n"] d(3) by (simp_all add: queue_fields)
  have wb: "world ?sb = world s" "history ?sb = history s"
    by (simp_all add: queue_fields)
  obtain r1 w1 where f1: "f1 (world s) = (r1, w1)" by (cases "f1 (world s)")
  obtain r2 w2 where f2: "f2 w1 = (r2, w2)" by (cases "f2 w1")
  let ?st1 = "case r1 of Inl _ \<Rightarrow> Rejected | Inr _ \<Rightarrow> Fulfilled"
  let ?sc = "run_job ?sb"
  have c: "?sc = settle ?n ?st1 (?sb\<lparr>jobs := [], world := w1, history := history s @ [?n]\<rparr>)"
    using jb wb f1 by (simp add: run_job_def)
  have jc: "jobs ?sc = [Reaction f2 (Suc ?n)]"
    unfolding c using sb(1) rb by (simp add: settle_fields reaction_job_def)
  have wc: "world ?sc = w1" "history ?sc = history s @ [?n]"
    unfolding c by (simp_all add: settle_fields)
  have "world (run_job ?sc) = w2 \<and> history (run_job ?sc) = history s @ [?n, Suc ?n]"
    using jc wc f2 by (simp add: run_job_def settle_fields)
  then show "world (run validateId [Microtask, Microtask] ?sb) = snd (f2 (snd (f1 (world s))))"
    and "history (run validateId [Microtask, Microtask] ?sb) = history s @ [?n, Suc ?n]"
    using f1 f2 by simp_all
qed

text \<open>
  Claim C1. Let two functions be enqueued in order, \<open>f1\<close> and later \<open>f2\<close>, with any
  events before, between and after the two calls of \<^verbatim>\<open>queue\<close>; \<open>q1\<close> and \<open>q2\<close> are
  the promises the calls return. In every state that follows, the handlers have run in
  the order of their promises and none has run twice; if the handler of \<open>q2\<close> has run,
  then the handler of \<open>q1\<close> has run before it and \<open>q1\<close> is settled. Once the head of
  the chain is settled, enough microtasks run both handlers, whatever \<open>f1\<close> does. And
  from a queue whose last promise is settled and whose microtask queue is empty, two
  microtasks after the two calls of \<^verbatim>\<open>queue\<close> leave the world that \<open>f2\<close> makes of the
  world that \<open>f1\<close> made, whether \<open>f1\<close> returned or threw.
\<close>

theorem queue_runs_in_order:
  assumes "s1 = run validateId evs1 System0"
    and "q1 = fst (queue f1 s1)" and "s2 = run validateId evs2 (snd (queue f1 s1))"
    and "q2 = fst (queue f2 s2)" and "s3 = run validateId evs3 (snd (queue f2 s2))"
  shows "q1 < q2
       \<and> distinct (history s3) \<and> sorted (history s3)
       \<and> (q2 \<in> set (history s3) \<longrightarrow>
            status s3 q1 \<noteq> Pending
            \<and> (\<exists>xs ys zs. history s3 = xs @ [q1] @ ys @ [q2] @ zs))
       \<and> (status s3 0 \<noteq> Pending \<and> length (jobs s3) + nextPromise s3 \<le> n \<longrightarrow>
            q1 \<in> set (history (run validateId (replicate n Microtask) s3))
            \<and> q2 \<in> set (history (run validateId (replicate n Microtask) s3))
            \<and> distinct (history (run validateId (replicate n Microtask) s3)))
       \<and> (jobs s1 = [] \<and> status s1 (updateQueue s1) \<noteq> Pending \<and> evs2 = [] \<longrightarrow>
            world (run validateId [Microtask, Microtask] (snd (queue f2 s2)))
              = snd (f2 (snd (f1 (world s1)))))"
proof -
  have i1: "queue_inv s1" unfolding assms(1) by (rule queue_inv_reachable)
  have i2: "queue_inv s2"
    unfolding assms(3) using i1 by (intro queue_inv_run queue_inv_queue)
  have i3: "queue_inv s3"
    unfolding assms(5) using i2 by (intro queue_inv_run queue_inv_queue)
  note d3 = queue_invD [OF i3]
  have q1: "q1 = nextPromise s1" and q2: "q2 = nextPromise s2"
    unfolding assms(2,4) by (simp_all add: queue_fields)
  have "Suc q1 = nextPromise (snd (queue f1 s1))" by (simp add: q1 queue_fields)
  also have "\<dots> \<le> nextPromise s2" unfolding assms(3) by (rule nextPromise_run)
  finally have lt: "q1 < q2" by (simp add: q2)
  have pos: "0 < q1" using queue_invD(3) [OF i1] q1 by simp
  have "Suc q2 = nextPromise (snd (queue f2 s2))" by (simp add: q2 queue_fields)
  also have "\<dots> \<le> nextPromise s3" unfolding assms(5) by (rule nextPromise_run)
  finally have lt3: "q2 < nextPromise s3" by simp
  have ds: "distinct (history s3) \<and> sorted (history s3)"
  proof -
    have "distinct [1..<Suc (length (history s3))]" and "sorted [1..<Suc (length (history s3))]"
      by (rule distinct_upt, rule sorted_upt)
    with d3(2) show ?thesis by metis
  qed
  have a: "status s3 q1 \<noteq> Pending \<and> (\<exists>xs ys zs. history s3 = xs @ [q1] @ ys @ [q2] @ zs)"
    if m: "q2 \<in> set (history s3)"
  proof -
    from m d3(2) have "q2 \<in> {1..<Suc (length (history s3))}" by (metis set_upt)
    then have "q2 \<le> length (history s3)" by simp
    with lt have "q1 \<le> length (history s3)" by simp
    with d3(6) [of q1] pos have "status s3 q1 \<noteq> Pending" by simp
    moreover from history_split [OF d3(2) pos lt m]
    have "\<exists>xs ys zs. history s3 = xs @ [q1] @ ys @ [q2] @ zs" .
    ultimately show ?thesis by simp
  qed
  have b: "q1 \<in> set (history (run validateId (replicate n Microtask) s3))
            \<and> q2 \<in> set (history (run validateId (replicate n Microtask) s3))
            \<and> distinct (history (run validateId (replicate n Microtask) s3))"
    if h: "status s3 0 \<noteq> Pending" and k: "length (jobs s3) + nextPromise s3 \<le> n"
  proof -
    from k have "backlog s3 \<le> n" by (simp add: backlog_def)
    with i3 h have "history (run validateId (replicate n Microtask) s3) = [1..<nextPromise s3]"
      by (rule drain)
    with pos lt lt3 show ?thesis by simp
  qed
  have c: "world (run validateId [Microtask, Microtask] (snd (queue f2 s2)))
              = snd (f2 (snd (f1 (world s1))))"
    if "jobs s1 = []" and "status s1 (updateQueue s1) \<noteq> Pending" and "evs2 = []"
    using queue_twice_idle(1) [OF i1 that(1,2)] that(3) assms(3) by simp
  from lt ds a b c show ?thesis by blast
qed


lemmas system_defs = System0_def onDidChange_def queue_def then_promise_def
  resolve_pendingInitialTasks_def onDidInitializeLayout_def run_job_def resume_layout_def
  layout_finish_def settle_def reaction_job_def updateTerminals_def newTerminal_settled_def
  log_layout_failure_def activateTerminal_def task_terminal_options_def default_options_def
  toTerminalId_def idPrefix_def or_else_def

lemma idle_system_fields:
  "jobs idle_system = []" "updateQueue idle_system = 1" "status idle_system 1 = Fulfilled"
  "status idle_system (Suc 0) = Fulfilled" "status idle_system 2 = Pending"
  "status idle_system 0 = Fulfilled" "nextPromise idle_system = 2" "history idle_system = [1]"
  "effects (world idle_system) = [LayoutResolved, NewTerminal default_options, ApplyBatch []]"
  by (simp_all add: idle_system_def system_defs world_defs)

theorem queue_runs_in_order_witness:
  "fst (queue failing_fn idle_system) = 2
   \<and> fst (queue marking_fn (snd (queue failing_fn idle_system))) = 3
   \<and> effects (world (run validateId0 [Microtask, Microtask]
        (snd (queue marking_fn (snd (queue failing_fn idle_system))))))
       = [LayoutResolved, NewTerminal default_options, ApplyBatch [],
          ConsoleError ''first'' (Failure ''first''), ConsoleError ''second'' (Failure ''none'')]
   \<and> 2 \<in> set (history (run validateId0 (replicate 5 Microtask)
        (snd (queue marking_fn (snd (queue failing_fn idle_system))))))
   \<and> 3 \<in> set (history (run validateId0 (replicate 5 Microtask)
        (snd (queue marking_fn (snd (queue failing_fn idle_system))))))"
proof -
  let ?s2 = "snd (queue failing_fn idle_system)"
  let ?s3 = "snd (queue marking_fn ?s2)"
  have 1: "fst (queue failing_fn idle_system) = 2" by (simp add: queue_fields idle_system_fields)
  have 2: "fst (queue marking_fn ?s2) = 3" by (simp add: queue_fields idle_system_fields)
  have 3: "status ?s3 0 \<noteq> Pending \<and> length (jobs ?s3) + nextPromise ?s3 \<le> 5"
    by (simp add: queue_fields idle_system_fields)
  have 4: "jobs idle_system = [] \<and> status idle_system (updateQueue idle_system) \<noteq> Pending
           \<and> ([] :: event list) = []"
    by (simp add: idle_system_fields)
  have 5: "effects (snd (marking_fn (snd (failing_fn (world idle_system)))))
       = [LayoutResolved, NewTerminal default_options, ApplyBatch [],
          ConsoleError ''first'' (Failure ''first''), ConsoleError ''second'' (Failure ''none'')]"
    by (simp add: failing_fn_def marking_fn_def emit_def idle_system_fields)
  from queue_runs_in_order [where validateId = validateId0
      and ?evs1.0 = "[LayoutInitialized, Snapshot [], Microtask, Microtask]"
      and ?s1.0 = idle_system and ?f1.0 = failing_fn and ?f2.0 = marking_fn
      and ?evs2.0 = "[]" and ?s2.0 = ?s2 and ?evs3.0 = "[]" and ?s3.0 = ?s3 and n = 5
      and ?q1.0 = "fst (queue failing_fn idle_system)"
      and ?q2.0 = "fst (queue marking_fn ?s2)"]
    1 2 3 4 5
  show ?thesis by (simp add: idle_system_def)
qed

section \<open>Initial layout comes before updates\<close>

lemma grows_refl: "grows P w w"
  by (simp add: grows_def)

lemma grows_trans: "grows P w w' \<Longrightarrow> grows P w' w'' \<Longrightarrow> grows P w w''"
  by (auto simp add: grows_def)

lemma grows_mono: "grows P w w' \<Longrightarrow> (\<And>e. P e \<Longrightarrow> Q e) \<Longrightarrow> grows Q w w'"
  unfolding grows_def by (metis list.pred_mono_strong)

lemma grows_emit: "P e \<Longrightarrow> grows P w (emit e w)"
  by (simp add: grows_def emit_def)

lemma grows_effects_eq: "effects w' = effects w \<Longrightarrow> grows P w w'"
  by (simp add: grows_def)

lemma unresolved_grows:
  assumes "unresolved (effects w)" and "grows (\<lambda>e. \<not> is_batch e \<and> e \<noteq> LayoutResolved) w w'"
  shows "unresolved (effects w')"
  using assms by (auto simp add: unresolved_def grows_def list_all_iff)

lemma resolved_grows:
  assumes "resolved (effects w)" and "grows (\<lambda>e. \<not> is_layout_effect e) w w'"
  shows "resolved (effects w')"
proof -
  from assms(2) obtain xs where e: "effects w' = effects w @ xs"
    and xs: "list_all (\<lambda>e. \<not> is_layout_effect e) xs"
    by (auto simp add: grows_def)
  from assms(1) have m: "LayoutResolved \<in> set (effects w)"
    and l: "layout_then_updates (effects w)"
    by (simp_all add: resolved_def)
  from m have "\<exists>x \<in> set (effects w). \<not> x \<noteq> LayoutResolved" by auto
  then have "takeWhile (\<lambda>e. e \<noteq> LayoutResolved) (effects w @ xs)
               = takeWhile (\<lambda>e. e \<noteq> LayoutResolved) (effects w)"
    and "dropWhile (\<lambda>e. e \<noteq> LayoutResolved) (effects w @ xs)
               = dropWhile (\<lambda>e. e \<noteq> LayoutResolved) (effects w) @ xs"
    by (simp_all add: takeWhile_append1 dropWhile_append1)
  with l xs m show ?thesis
    unfolding e resolved_def layout_then_updates_def by simp
qed

lemma unresolved_resolve:
  assumes "unresolved es"
  shows "resolved (es @ [LayoutResolved])"
proof -
  from assms have "\<And>x. x \<in> set es \<Longrightarrow> x \<noteq> LayoutResolved" by (auto simp add: unresolved_def)
  then have "takeWhile (\<lambda>e. e \<noteq> LayoutResolved) (es @ [LayoutResolved]) = es"
    and "dropWhile (\<lambda>e. e \<noteq> LayoutResolved) (es @ [LayoutResolved]) = [LayoutResolved]"
    by (simp_all add: takeWhile_append2 dropWhile_append2)
  with assms show ?thesis
    by (simp add: resolved_def layout_then_updates_def unresolved_def)
qed

lemma unresolved_ordered:
  assumes "unresolved es"
  shows "layout_then_updates es"
proof -
  from assms have n: "\<And>x. x \<in> set es \<Longrightarrow> x \<noteq> LayoutResolved"
    by (auto simp add: unresolved_def)
  have t: "takeWhile (\<lambda>e. e \<noteq> LayoutResolved) es = es"
    using n by (simp add: takeWhile_eq_all_conv)
  have d: "dropWhile (\<lambda>e. e \<noteq> LayoutResolved) es = []"
    using n by (simp add: dropWhile_eq_Nil_conv)
  from assms show ?thesis
    unfolding layout_then_updates_def t d by (simp add: unresolved_def)
qed


lemma effects_modify [simp]: "effects (modify t f w) = effects w"
  by (simp add: modify_def)

lemma guard_effect_quiet: "guard_effect e \<Longrightarrow> quiet e"
  by (cases e) (simp_all add: quiet_def)

lemma guard_effect_not_layout: "is_batch e \<or> guard_effect e \<Longrightarrow> \<not> is_layout_effect e"
  by (cases e) simp_all

lemma grows_dispose: "grows guard_effect w (dispose t w)"
  by (simp add: grows_def dispose_frame)

lemma grows_start: "grows guard_effect w (snd (start t i w))"
  by (simp add: grows_def start_def surface_start_def emit_def)

lemma grows_call_start: "grows guard_effect w (snd (call_start t i w))"
  by (simp add: call_start_def grows_start)
    (simp add: grows_def surface_start_def emit_def)

lemma grows_attachToTask: "grows guard_effect w (snd (attachToTask t params w))"
  by (simp add: grows_def attachToTask_def server_attach_def emit_def)

lemma grows_update: "grows guard_effect w (snd (update validateId t w))"
  by (simp add: update_def Let_def grows_dispose grows_start grows_attachToTask grows_refl
      split: option.splits)

lemma grows_applyTask: "grows guard_effect w (snd (applyTask validateId t tk w))"
  using grows_update [of "modify t (\<lambda>x. x\<lparr>task := Some tk\<rparr>) w" validateId t]
  by (simp add: applyTask_def grows_def)

lemma grows_updateTerminals_loop:
  "grows guard_effect w (updateTerminals_loop validateId tasks w)"
proof (induction tasks arbitrary: w)
  case Nil
  show ?case by (simp add: grows_refl)
next
  case (Cons tk tasks)
  show ?case
  proof (cases "taskTerminals w (toTerminalId (task_id tk))")
    case None
    with Cons show ?thesis by simp
  next
    case (Some t)
    have "grows guard_effect w (snd (applyTask validateId t tk w))" by (rule grows_applyTask)
    then have "grows guard_effect w
        (updateTerminals_loop validateId tasks (snd (applyTask validateId t tk w)))"
      using Cons by (rule grows_trans)
    with Some show ?thesis
      by (simp add: updateTerminals_loop_step del: updateTerminals_loop.simps(2))
  qed
qed

lemma benign_updateTerminals: "benign (updateTerminals validateId tasks)"
proof -
  have "grows (\<lambda>e. is_batch e \<or> guard_effect e) w (snd (updateTerminals validateId tasks w))"
    for w
  proof -
    have "grows (\<lambda>e. is_batch e \<or> guard_effect e) w (emit (ApplyBatch tasks) w)"
      by (rule grows_emit) simp
    moreover have "grows (\<lambda>e. is_batch e \<or> guard_effect e) (emit (ApplyBatch tasks) w)
        (updateTerminals_loop validateId tasks (emit (ApplyBatch tasks) w))"
      by (rule grows_mono [OF grows_updateTerminals_loop]) simp
    ultimately show ?thesis unfolding updateTerminals_def by (simp add: grows_trans)
  qed
  then show ?thesis by (simp add: benign_def)
qed

lemma effects_create_widget: "effects (snd (create_widget opts bad w)) = effects w"
  by (simp add: create_widget_def Let_def onWillCreateWidget_def)

lemma grows_deliver: "grows guard_effect w (deliver validateId ev w)"
proof (cases ev)
  case (WidgetCreated opts bad)
  then show ?thesis by (simp add: grows_effects_eq effects_create_widget)
next
  case (ApplyTask t tk)
  then show ?thesis by (simp add: grows_applyTask grows_refl)
next
  case (CallStart t i)
  then show ?thesis by (simp add: grows_call_start)
next
  case (DidOpen t)
  have "grows guard_effect w (snd (update validateId t (reset_starting t w)))"
    using grows_update [of "reset_starting t w" validateId t]
    by (simp add: grows_def reset_starting_def)
  with DidOpen show ?thesis by (simp add: fire_onDidOpen_def grows_refl)
next
  case (DidOpenFailure t)
  have "grows guard_effect w (snd (update validateId t (reset_starting t w)))"
    using grows_update [of "reset_starting t w" validateId t]
    by (simp add: grows_def reset_starting_def)
  with DidOpenFailure show ?thesis by (simp add: fire_onDidOpenFailure_def grows_refl)
next
  case (StartSettled t)
  then show ?thesis by (simp add: grows_effects_eq grows_refl)
next
  case (AttachResolved t)
  then show ?thesis by (simp add: grows_effects_eq grows_refl attach_then_def)
next
  case (AttachRejected t e)
  then show ?thesis by (simp add: grows_effects_eq grows_refl attach_catch_def)
next
  case (TerminalIdChanged t n)
  then show ?thesis by (simp add: grows_effects_eq)
next
  case (WidgetDisposed t)
  then show ?thesis by (simp add: grows_dispose)
qed

lemma grows_surface_step: "grows guard_effect w (surface_step validateId ev w)"
  by (simp add: surface_step_def grows_deliver grows_refl split: option.splits)


lemma handlers_benign_chain:
  "chain_of s' = chain_of s \<Longrightarrow> handlers_benign s' = handlers_benign s"
  by (simp add: chain_of_def handlers_benign_def)

lemma benign_reaction_job:
  "benign (fst r) \<and> benign (fst (snd r)) \<Longrightarrow> benign_job (reaction_job st r)"
  by (cases r) (simp add: reaction_job_def)

lemma handlers_benign_settle:
  assumes "handlers_benign s"
  shows "handlers_benign (settle p st s)"
  using assms unfolding handlers_benign_def
  by (auto simp add: settle_fields intro!: benign_reaction_job)

lemma handlers_benign_queue:
  assumes "handlers_benign s" and "benign f"
  shows "handlers_benign (snd (queue f s))"
  using assms unfolding handlers_benign_def
  by (auto simp add: queue_fields)

lemma handlers_benign_resume_layout:
  assumes "handlers_benign s"
  shows "handlers_benign (resume_layout s)"
proof -
  from chain_of_resume_layout [of s] show ?thesis
  proof
    assume "chain_of (resume_layout s) = chain_of s"
    then have "handlers_benign (resume_layout s) = handlers_benign s"
      by (rule handlers_benign_chain)
    with assms show ?thesis by simp
  next
    assume "chain_of (resume_layout s) = chain_of (settle 0 Fulfilled s)"
    then have "handlers_benign (resume_layout s) = handlers_benign (settle 0 Fulfilled s)"
      by (rule handlers_benign_chain)
    with handlers_benign_settle [OF assms] show ?thesis by simp
  qed
qed

lemma handlers_benign_jobs:
  assumes "handlers_benign s" and "\<And>j. j \<in> set js \<Longrightarrow> benign_job j"
  shows "handlers_benign (s\<lparr>jobs := js\<rparr>)"
  using assms unfolding handlers_benign_def by simp

lemma handlers_benign_step:
  assumes "handlers_benign s" and "\<not> is_enqueue ev"
  shows "handlers_benign (step validateId ev s)"
proof (cases ev)
  case (Snapshot updated)
  have "handlers_benign (resolve_pendingInitialTasks updated s)"
    using assms(1) unfolding handlers_benign_def resolve_pendingInitialTasks_def
    by (auto split: option.splits)
  then show ?thesis
    using Snapshot by (simp add: onDidChange_def handlers_benign_queue benign_updateTerminals)
next
  case LayoutInitialized
  have "handlers_benign (onDidInitializeLayout s)"
    using assms(1) by (auto simp add: handlers_benign_def onDidInitializeLayout_def)
  with LayoutInitialized assms(1) show ?thesis by simp
next
  case Microtask
  show ?thesis
  proof (cases "jobs s")
    case Nil
    with Microtask assms(1) show ?thesis by (simp add: run_job_def)
  next
    case (Cons j js)
    have t: "handlers_benign (s\<lparr>jobs := js\<rparr>)"
      using assms(1) Cons unfolding handlers_benign_def by simp
    show ?thesis
    proof (cases j)
      case ResumeLayout
      with Microtask Cons t show ?thesis
        by (simp add: run_job_def handlers_benign_resume_layout)
    next
      case (Reaction f q)
      obtain r w' where fw: "f (world s) = (r, w')" by (cases "f (world s)")
      have "handlers_benign (s\<lparr>jobs := js, world := w', history := history s @ [q]\<rparr>)"
        using t unfolding handlers_benign_def by simp
      then have "handlers_benign (settle q (case r of Inl _ \<Rightarrow> Rejected | Inr _ \<Rightarrow> Fulfilled)
          (s\<lparr>jobs := js, world := w', history := history s @ [q]\<rparr>))"
        by (rule handlers_benign_settle)
      with Microtask Cons Reaction fw show ?thesis by (simp add: run_job_def)
    qed
  qed
next
  case (NewTerminalSettled a)
  have "handlers_benign (newTerminal_settled a s)"
    using assms(1)
    by (auto simp add: handlers_benign_def newTerminal_settled_def
        split: layout_pc.splits option.splits sum.splits prod.splits)
  with NewTerminalSettled show ?thesis by simp
next
  case (Surface sev)
  have "handlers_benign (s\<lparr>world := surface_step validateId sev (world s)\<rparr>)"
    using assms(1) by (simp add: handlers_benign_def)
  with Surface show ?thesis by simp
next
  case (Enqueue f)
  with assms(2) show ?thesis by simp
qed

lemma phase_inv_layout_finish:
  assumes "status s 0 = Pending" and "unresolved (effects (world s))"
  shows "phase_inv (layout_finish s)"
proof -
  let ?s1 = "settle 0 Fulfilled (s\<lparr>world := emit LayoutResolved (world s)\<rparr>)"
  have st: "status ?s1 0 = Fulfilled" using assms(1) by (simp add: settle_fields)
  have r1: "resolved (effects (world ?s1))"
    using unresolved_resolve [OF assms(2)] by (simp add: settle_fields emit_def)
  have r2: "resolved (effects (emit (NewTerminal default_options) (world ?s1)))"
    by (rule resolved_grows [OF r1]) (simp add: grows_emit default_options_def)
  show ?thesis
    using st r1 r2
    by (simp add: layout_finish_def Let_def phase_inv_def in_loop_def)
qed

lemma unresolved_log_layout_failure:
  "unresolved (effects (world s)) \<Longrightarrow> unresolved (effects (world (log_layout_failure e s)))"
  by (simp add: log_layout_failure_def emit_def unresolved_def)

lemma phase_inv_layout_loop:
  assumes "status s 0 = Pending" and "unresolved (effects (world s))"
  shows "phase_inv (layout_loop tasks ref s)"
  using assms
proof (induction tasks ref s rule: layout_loop.induct)
  case (1 ref s)
  then show ?case by (simp add: phase_inv_layout_finish)
next
  case (2 tk tasks ref s)
  show ?case
  proof (cases "task_state tk = CLOSED")
    case True
    with 2 show ?thesis by simp
  next
    case open_task: False
    show ?thesis
    proof (cases "taskTerminals (world s) (toTerminalId (task_id tk))")
      case (Some terminal)
      with 2 open_task show ?thesis by simp
    next
      case None
      show ?thesis
      proof (cases "task_presentation tk")
        case no_p: None
        have "status (log_layout_failure TypeError s) 0 = Pending"
          using "2.prems"(1) by (simp add: log_layout_failure_def)
        moreover have "unresolved (effects (world (log_layout_failure TypeError s)))"
          using "2.prems"(2) by (rule unresolved_log_layout_failure)
        ultimately show ?thesis using "2.IH" open_task None no_p by auto
      next
        case (Some p)
        with open_task None "2.prems" show ?thesis
          by (simp add: phase_inv_def in_loop_def emit_def unresolved_def)
      qed
    qed
  qed
qed

lemma phase_inv_resume_layout:
  assumes "phase_inv s"
  shows "phase_inv (resume_layout s)"
proof (cases "layout s")
  case NotCalled
  with assms show ?thesis by (simp add: resume_layout_def)
next
  case AwaitingTasks
  with assms have p: "status s 0 = Pending" "unresolved (effects (world s))"
    by (simp_all add: phase_inv_def in_loop_def)
  with AwaitingTasks assms show ?thesis
    by (simp add: resume_layout_def phase_inv_layout_loop split: option.splits)
next
  case (AwaitingNewTerminal tk tasks ref a)
  with assms have p: "status s 0 = Pending" "unresolved (effects (world s))"
    by (simp_all add: phase_inv_def in_loop_def)
  have l: "phase_inv (layout_loop tasks r (log_layout_failure e s))" for r e
    using p by (intro phase_inv_layout_loop unresolved_log_layout_failure)
      (simp add: log_layout_failure_def)
  show ?thesis
  proof (cases a)
    case None
    with AwaitingNewTerminal assms show ?thesis by (simp add: resume_layout_def)
  next
    case (Some x)
    show ?thesis
    proof (cases x)
      case (Inl e)
      with AwaitingNewTerminal Some l show ?thesis by (simp add: resume_layout_def)
    next
      case (Inr terminal)
      show ?thesis
      proof (cases "task_presentation tk")
        case None
        with AwaitingNewTerminal Some Inr l show ?thesis by (simp add: resume_layout_def)
      next
        case some_p: (Some pr)
        let ?pl = "\<lparr>place_ref = ref, place_area = or_else (openIn pr) ''bottom'',
                        place_mode = or_else (openMode pr) ''tab-after''\<rparr>"
        let ?s' = "s\<lparr>world := emit (ActivateTerminal terminal ?pl) (world s)\<rparr>"
        have u: "unresolved (effects (world ?s'))"
          using p(2) by (simp add: emit_def unresolved_def)
        have st: "status ?s' 0 = Pending" using p(1) by simp
        have "phase_inv (layout_loop tasks (Some terminal) ?s')"
          using st u by (rule phase_inv_layout_loop)
        moreover have "phase_inv (layout_loop tasks ref (log_layout_failure e ?s'))" for e
          using st u by (intro phase_inv_layout_loop unresolved_log_layout_failure)
            (simp add: log_layout_failure_def)
        ultimately show ?thesis
          using AwaitingNewTerminal Some Inr some_p
          by (simp add: resume_layout_def activateTerminal_def)
      qed
    qed
  qed
next
  case (AwaitingDefaultTerminal a)
  with assms have p: "status s 0 = Fulfilled" "resolved (effects (world s))"
    by (simp_all add: phase_inv_def in_loop_def)
  show ?thesis
  proof (cases a)
    case None
    with AwaitingDefaultTerminal assms show ?thesis by (simp add: resume_layout_def)
  next
    case (Some x)
    show ?thesis
    proof (cases x)
      case (Inl e)
      with AwaitingDefaultTerminal Some p show ?thesis
        by (simp add: resume_layout_def phase_inv_def in_loop_def)
    next
      case (Inr terminal)
      obtain r w' where c: "call_start terminal None (world s) = (r, w')"
        by (cases "call_start terminal None (world s)")
      have "grows guard_effect (world s) w'"
        using grows_call_start [of "world s" terminal None] c by simp
      then have g: "grows (\<lambda>e. \<not> is_layout_effect e) (world s) w'"
        by (rule grows_mono) (simp add: guard_effect_not_layout)
      have r1: "resolved (effects w')" by (rule resolved_grows [OF p(2) g])
      have r2: "resolved (effects (emit (OpenTerminal terminal) w'))"
        by (rule resolved_grows [OF r1]) (simp add: grows_emit)
      show ?thesis
        using AwaitingDefaultTerminal Some Inr c p(1) r1 r2
        by (cases r) (simp_all add: resume_layout_def phase_inv_def in_loop_def)
    qed
  qed
next
  case Returned
  with assms show ?thesis by (simp add: resume_layout_def)
next
  case (Thrown e)
  with assms show ?thesis by (simp add: resume_layout_def)
qed


lemma phase_inv_fields:
  assumes "phase_inv s" and "layout s' = layout s" and "status s' 0 = status s 0"
    and "effects (world s') = effects (world s)"
  shows "phase_inv s'"
  using assms by (simp add: phase_inv_def in_loop_def)

lemma phase_inv_world:
  assumes "phase_inv s" and "grows quiet (world s) w'"
  shows "phase_inv (s\<lparr>world := w'\<rparr>)"
proof -
  have a: "unresolved (effects w')" if "unresolved (effects (world s))"
    by (rule unresolved_grows [OF that]) (rule grows_mono [OF assms(2)], simp add: quiet_def)
  have b: "resolved (effects w')" if "resolved (effects (world s))"
    by (rule resolved_grows [OF that]) (rule grows_mono [OF assms(2)], simp add: quiet_def)
  from assms(1) a b show ?thesis by (auto simp add: phase_inv_def in_loop_def)
qed

lemma phase_inv_run_job:
  assumes "phase_inv s" and "queue_inv s" and "handlers_benign s"
  shows "phase_inv (run_job s)"
proof (cases "jobs s")
  case Nil
  with assms(1) show ?thesis by (simp add: run_job_def)
next
  case (Cons j js)
  show ?thesis
  proof (cases j)
    case ResumeLayout
    have "phase_inv (s\<lparr>jobs := js\<rparr>)"
      by (rule phase_inv_fields [OF assms(1)]) simp_all
    then have "phase_inv (resume_layout (s\<lparr>jobs := js\<rparr>))" by (rule phase_inv_resume_layout)
    with Cons ResumeLayout show ?thesis by (simp add: run_job_def)
  next
    case (Reaction f q)
    note d = queue_invD [OF assms(2)]
    from d(9) Cons Reaction have c: "status s (length (history s)) \<noteq> Pending"
      and q: "q = Suc (length (history s))"
      by (auto split: if_splits)
    have h0: "status s 0 \<noteq> Pending"
    proof (cases "length (history s) = 0")
      case True with c show ?thesis by simp
    next
      case False
      then have "history s \<noteq> []" by simp
      with d(4) show ?thesis by blast
    qed
    with assms(1) have p: "\<not> in_loop s" "status s 0 = Fulfilled" "resolved (effects (world s))"
      by (auto simp add: phase_inv_def)
    from assms(3) Cons Reaction have "benign f" by (simp add: handlers_benign_def)
    then have "grows (\<lambda>e. is_batch e \<or> guard_effect e) (world s) (snd (f (world s)))"
      by (simp add: benign_def)
    then have g: "grows (\<lambda>e. \<not> is_layout_effect e) (world s) (snd (f (world s)))"
      by (rule grows_mono) (rule guard_effect_not_layout)
    obtain r w' where fw: "f (world s) = (r, w')" by (cases "f (world s)")
    with g have "resolved (effects w')"
      using resolved_grows [OF p(3)] by simp
    moreover have "q \<noteq> 0" using q by simp
    ultimately have "phase_inv (settle q (case r of Inl _ \<Rightarrow> Rejected | Inr _ \<Rightarrow> Fulfilled)
          (s\<lparr>jobs := js, world := w', history := history s @ [q]\<rparr>))"
      using p(1,2) by (simp add: phase_inv_def in_loop_def settle_fields)
    with Cons Reaction fw show ?thesis by (simp add: run_job_def)
  qed
qed

lemma phase_inv_step:
  assumes "phase_inv s" and "queue_inv s" and "handlers_benign s"
  shows "phase_inv (step validateId ev s)"
proof (cases ev)
  case (Snapshot updated)
  have "phase_inv (onDidChange validateId updated s)"
    by (rule phase_inv_fields [OF assms(1)])
      (simp_all add: onDidChange_def queue_fields resolve_pendingInitialTasks_def
        split: option.splits)
  with Snapshot show ?thesis by simp
next
  case LayoutInitialized
  have "phase_inv (onDidInitializeLayout s)" if "layout s = NotCalled"
    using assms(1) that by (simp add: phase_inv_def in_loop_def onDidInitializeLayout_def)
  with LayoutInitialized assms(1) show ?thesis by simp
next
  case Microtask
  with assms show ?thesis by (simp add: phase_inv_run_job)
next
  case (NewTerminalSettled a)
  have "phase_inv (newTerminal_settled a s)"
    using assms(1)
    by (auto simp add: newTerminal_settled_def phase_inv_def in_loop_def effects_create_widget
        split: layout_pc.splits option.splits sum.splits prod.splits
        dest!: arg_cong [where f = "\<lambda>x. effects (snd x)"])
  with NewTerminalSettled show ?thesis by simp
next
  case (Surface sev)
  have "grows quiet (world s) (surface_step validateId sev (world s))"
    by (rule grows_mono [OF grows_surface_step]) (rule guard_effect_quiet)
  with assms(1) have "phase_inv (s\<lparr>world := surface_step validateId sev (world s)\<rparr>)"
    by (rule phase_inv_world)
  with Surface show ?thesis by simp
next
  case (Enqueue f)
  have "phase_inv (snd (queue f s))"
    by (rule phase_inv_fields [OF assms(1)]) (simp_all add: queue_fields)
  with Enqueue show ?thesis by simp
qed

lemma phase_inv_System0: "phase_inv System0"
  by (simp add: phase_inv_def in_loop_def System0_def World0_def unresolved_def)

lemma handlers_benign_System0: "handlers_benign System0"
  by (simp add: handlers_benign_def System0_def)

lemma invariants_run:
  assumes "phase_inv s" and "queue_inv s" and "handlers_benign s"
    and "list_all (\<lambda>ev. \<not> is_enqueue ev) evs"
  shows "phase_inv (run validateId evs s) \<and> queue_inv (run validateId evs s)"
  using assms
proof (induction evs arbitrary: s)
  case Nil
  then show ?case by simp
next
  case (Cons ev evs)
  have "phase_inv (step validateId ev s)"
    using Cons.prems(1-3) by (rule phase_inv_step)
  moreover have "queue_inv (step validateId ev s)"
    using Cons.prems(2) by (rule queue_inv_step)
  moreover have "handlers_benign (step validateId ev s)"
    using Cons.prems(3,4) by (intro handlers_benign_step) simp_all
  ultimately show ?case using Cons.IH Cons.prems(4) by simp
qed

text \<open>
  Claim C2. The update queue is constructed with the promise of the initial layout as
  its head, and that promise is pending until \<^verbatim>\<open>onDidInitializeLayout\<close> resolves it.
  In every run of the contribution, whatever the order of snapshots, the shell's signal,
  microtasks, settled \<^verbatim>\<open>newTerminal\<close> promises and events of terminals: everything
  the initial layout asks of the shell for a task terminal comes before the resolution,
  every application of an update batch comes after it, and no handler of the queue has
  run while the head is pending.
\<close>

theorem initial_layout_before_updates:
  assumes "list_all (\<lambda>ev. \<not> is_enqueue ev) evs"
  shows "updateQueue System0 = 0 \<and> status System0 0 = Pending
       \<and> layout_then_updates (effects (world (run validateId evs System0)))
       \<and> (LayoutResolved \<in> set (effects (world (run validateId evs System0)))
            = (status (run validateId evs System0) 0 \<noteq> Pending))
       \<and> (status (run validateId evs System0) 0 = Pending \<longrightarrow>
            history (run validateId evs System0) = [])"
proof -
  let ?s = "run validateId evs System0"
  from invariants_run [OF phase_inv_System0 queue_inv_System0 handlers_benign_System0 assms]
  have p: "phase_inv ?s" and q: "queue_inv ?s" by simp_all
  have 1: "layout_then_updates (effects (world ?s))"
    using p by (auto simp add: phase_inv_def resolved_def unresolved_ordered)
  have 2: "LayoutResolved \<in> set (effects (world ?s)) = (status ?s 0 \<noteq> Pending)"
    using p by (auto simp add: phase_inv_def resolved_def unresolved_def)
  have 3: "status ?s 0 = Pending \<longrightarrow> history ?s = []"
    using queue_invD(4) [OF q] by simp
  have 0: "updateQueue System0 = 0 \<and> status System0 0 = Pending"
    by (simp add: System0_def)
  from 0 1 2 3 show ?thesis by simp
qed


theorem initial_layout_before_updates_witness:
  "list_all (\<lambda>ev. \<not> is_enqueue ev) snapshot_first_run
   \<and> layout_then_updates (effects (world (run validateId0 snapshot_first_run System0)))
   \<and> effects (world (run validateId0 snapshot_first_run System0))
       = [NewTerminal options_t1,
          ActivateTerminal 0
            \<lparr>place_ref = None, place_area = ''bottom'', place_mode = ''tab-after''\<rparr>,
          LayoutResolved, ApplyBatch [task_t1], Start 0 None]
   \<and> history (run validateId0 snapshot_first_run System0) = [1]"
proof -
  have 1: "list_all (\<lambda>ev. \<not> is_enqueue ev) snapshot_first_run"
    by (simp add: snapshot_first_run_def)
  have 2: "effects (world (run validateId0 snapshot_first_run System0))
       = [NewTerminal options_t1,
          ActivateTerminal 0
            \<lparr>place_ref = None, place_area = ''bottom'', place_mode = ''tab-after''\<rparr>,
          LayoutResolved, ApplyBatch [task_t1], Start 0 None]"
    by (simp add: snapshot_first_run_def system_defs world_defs)
  have 3: "history (run validateId0 snapshot_first_run System0) = [1]"
    by (simp add: snapshot_first_run_def system_defs world_defs)
  from initial_layout_before_updates [OF 1, of validateId0] 1 2 3 show ?thesis by simp
qed

section \<open>The default terminal of the initial layout\<close>

lemma grows_plain:
  assumes "grows plain w w'"
  shows "defaults_requested w' = defaults_requested w" and "opened w' = opened w"
proof -
  from assms obtain xs where e: "effects w' = effects w @ xs" and p: "list_all plain xs"
    by (auto simp add: grows_def)
  from p have "count_list xs (NewTerminal default_options) = 0 \<and> filter is_open xs = []"
    by (induction xs) (auto simp add: plain_def)
  with e show "defaults_requested w' = defaults_requested w" and "opened w' = opened w"
    by (simp_all add: defaults_requested_def opened_def)
qed

lemma plain_emit:
  assumes "plain e"
  shows "defaults_requested (emit e w) = defaults_requested w" and "opened (emit e w) = opened w"
  using assms by (auto simp add: defaults_requested_def opened_def emit_def plain_def)

lemma guard_effect_plain: "is_batch e \<or> guard_effect e \<Longrightarrow> plain e"
  by (cases e) (simp_all add: plain_def)

lemma default_inv_fields:
  assumes "default_inv s" and "layout s' = layout s"
    and "defaults_requested (world s') = defaults_requested (world s)"
    and "opened (world s') = opened (world s)"
  shows "default_inv s'"
  using assms by (simp add: default_inv_def in_loop_def awaiting_default_def)

lemma layout_finish_effects:
  "effects (world (layout_finish s)) =
     effects (world s) @ (if allTerminals (world s) = []
                          then [LayoutResolved, NewTerminal default_options]
                          else [LayoutResolved])"
  "layout (layout_finish s) =
     (if allTerminals (world s) = [] then AwaitingDefaultTerminal None else Returned)"
  by (simp_all add: layout_finish_def Let_def settle_fields emit_def)

lemma default_inv_layout_finish:
  assumes "defaults_requested (world s) = 0" and "opened (world s) = 0"
  shows "default_inv (layout_finish s)"
  using assms
  by (simp add: default_inv_def in_loop_def awaiting_default_def layout_finish_effects
      defaults_requested_def opened_def)

lemma opened_zero:
  assumes "default_inv s" and "in_loop s"
  shows "defaults_requested (world s) = 0" and "opened (world s) = 0"
  using assms by (simp_all add: default_inv_def)

lemma default_inv_layout_loop:
  assumes "defaults_requested (world s) = 0" and "opened (world s) = 0"
  shows "default_inv (layout_loop tasks ref s)"
  using assms
proof (induction tasks ref s rule: layout_loop.induct)
  case (1 ref s)
  then show ?case by (simp add: default_inv_layout_finish)
next
  case (2 tk tasks ref s)
  show ?case
  proof (cases "task_state tk = CLOSED")
    case True
    with 2 show ?thesis by simp
  next
    case open_task: False
    show ?thesis
    proof (cases "taskTerminals (world s) (toTerminalId (task_id tk))")
      case (Some terminal)
      with 2 open_task show ?thesis by simp
    next
      case None
      show ?thesis
      proof (cases "task_presentation tk")
        case no_p: None
        have "defaults_requested (world (log_layout_failure TypeError s)) = 0"
          and "opened (world (log_layout_failure TypeError s)) = 0"
          using "2.prems" by (simp_all add: log_layout_failure_def plain_emit plain_def)
        then show ?thesis using "2.IH" open_task None no_p by auto
      next
        case (Some p)
        have "plain (NewTerminal (task_terminal_options tk p))"
          by (simp add: plain_def task_terminal_options_def default_options_def)
        with open_task None Some "2.prems" show ?thesis
          by (simp add: default_inv_def in_loop_def awaiting_default_def plain_emit)
      qed
    qed
  qed
qed


lemma default_inv_resume_layout:
  assumes "default_inv s"
  shows "default_inv (resume_layout s)"
proof (cases "layout s")
  case NotCalled
  with assms show ?thesis by (simp add: resume_layout_def)
next
  case AwaitingTasks
  with assms have z: "defaults_requested (world s) = 0" "opened (world s) = 0"
    by (simp_all add: default_inv_def in_loop_def)
  with AwaitingTasks assms show ?thesis
    by (simp add: resume_layout_def default_inv_layout_loop split: option.splits)
next
  case (AwaitingNewTerminal tk tasks ref a)
  with assms have z: "defaults_requested (world s) = 0" "opened (world s) = 0"
    by (simp_all add: default_inv_def in_loop_def)
  have l: "default_inv (layout_loop tasks r (log_layout_failure e s))" for r e
    using z by (intro default_inv_layout_loop)
      (simp_all add: log_layout_failure_def plain_emit plain_def)
  show ?thesis
  proof (cases a)
    case None
    with AwaitingNewTerminal assms show ?thesis by (simp add: resume_layout_def)
  next
    case (Some x)
    show ?thesis
    proof (cases x)
      case (Inl e)
      with AwaitingNewTerminal Some l show ?thesis by (simp add: resume_layout_def)
    next
      case (Inr terminal)
      show ?thesis
      proof (cases "task_presentation tk")
        case None
        with AwaitingNewTerminal Some Inr l show ?thesis by (simp add: resume_layout_def)
      next
        case some_p: (Some pr)
        let ?pl = "\<lparr>place_ref = ref, place_area = or_else (openIn pr) ''bottom'',
                        place_mode = or_else (openMode pr) ''tab-after''\<rparr>"
        let ?s' = "s\<lparr>world := emit (ActivateTerminal terminal ?pl) (world s)\<rparr>"
        have z': "defaults_requested (world ?s') = 0" "opened (world ?s') = 0"
          using z by (simp_all add: plain_emit plain_def)
        have "default_inv (layout_loop tasks (Some terminal) ?s')"
          using z' by (rule default_inv_layout_loop)
        moreover have "default_inv (layout_loop tasks ref (log_layout_failure e ?s'))" for e
          using z' by (intro default_inv_layout_loop)
            (simp_all add: log_layout_failure_def plain_emit plain_def)
        ultimately show ?thesis
          using AwaitingNewTerminal Some Inr some_p
          by (simp add: resume_layout_def activateTerminal_def)
      qed
    qed
  qed
next
  case (AwaitingDefaultTerminal a)
  with assms have z: "defaults_requested (world s) = 1" "opened (world s) = 0"
    by (simp_all add: default_inv_def awaiting_default_def)
  show ?thesis
  proof (cases a)
    case None
    with AwaitingDefaultTerminal assms show ?thesis by (simp add: resume_layout_def)
  next
    case (Some x)
    show ?thesis
    proof (cases x)
      case (Inl e)
      with AwaitingDefaultTerminal Some z show ?thesis
        by (simp add: resume_layout_def default_inv_def in_loop_def awaiting_default_def)
    next
      case (Inr terminal)
      obtain r w' where c: "call_start terminal None (world s) = (r, w')"
        by (cases "call_start terminal None (world s)")
      have "grows guard_effect (world s) w'"
        using grows_call_start [of "world s" terminal None] c by simp
      then have "grows plain (world s) w'"
        by (rule grows_mono) (simp add: guard_effect_plain)
      then have g: "defaults_requested w' = 1" "opened w' = 0"
        using z by (simp_all add: grows_plain)
      then have o: "defaults_requested (emit (OpenTerminal terminal) w') = 1"
        "opened (emit (OpenTerminal terminal) w') = 1"
        by (simp_all add: defaults_requested_def opened_def emit_def)
      show ?thesis
        using AwaitingDefaultTerminal Some Inr c g o
        by (cases r)
          (simp_all add: resume_layout_def default_inv_def in_loop_def awaiting_default_def)
    qed
  qed
next
  case Returned
  with assms show ?thesis by (simp add: resume_layout_def)
next
  case (Thrown e)
  with assms show ?thesis by (simp add: resume_layout_def)
qed

lemma default_inv_run_job:
  assumes "default_inv s" and "handlers_benign s"
  shows "default_inv (run_job s)"
proof (cases "jobs s")
  case Nil
  with assms(1) show ?thesis by (simp add: run_job_def)
next
  case (Cons j js)
  show ?thesis
  proof (cases j)
    case ResumeLayout
    have "default_inv (s\<lparr>jobs := js\<rparr>)"
      by (rule default_inv_fields [OF assms(1)]) simp_all
    then have "default_inv (resume_layout (s\<lparr>jobs := js\<rparr>))"
      by (rule default_inv_resume_layout)
    with Cons ResumeLayout show ?thesis by (simp add: run_job_def)
  next
    case (Reaction f q)
    from assms(2) Cons Reaction have "benign f" by (simp add: handlers_benign_def)
    then have "grows (\<lambda>e. is_batch e \<or> guard_effect e) (world s) (snd (f (world s)))"
      by (simp add: benign_def)
    then have g: "grows plain (world s) (snd (f (world s)))"
      by (rule grows_mono) (rule guard_effect_plain)
    obtain r w' where fw: "f (world s) = (r, w')" by (cases "f (world s)")
    have "default_inv (settle q (case r of Inl _ \<Rightarrow> Rejected | Inr _ \<Rightarrow> Fulfilled)
          (s\<lparr>jobs := js, world := w', history := history s @ [q]\<rparr>))"
      by (rule default_inv_fields [OF assms(1)])
        (use g fw in \<open>simp_all add: settle_fields grows_plain\<close>)
    with Cons Reaction fw show ?thesis by (simp add: run_job_def)
  qed
qed

lemma default_inv_step:
  assumes "default_inv s" and "handlers_benign s"
  shows "default_inv (step validateId ev s)"
proof (cases ev)
  case (Snapshot updated)
  have "default_inv (onDidChange validateId updated s)"
    by (rule default_inv_fields [OF assms(1)])
      (simp_all add: onDidChange_def queue_fields resolve_pendingInitialTasks_def
        split: option.splits)
  with Snapshot show ?thesis by simp
next
  case LayoutInitialized
  have "default_inv (onDidInitializeLayout s)" if "layout s = NotCalled"
    using assms(1) that
    by (simp add: default_inv_def in_loop_def awaiting_default_def onDidInitializeLayout_def)
  with LayoutInitialized assms(1) show ?thesis by simp
next
  case Microtask
  with assms show ?thesis by (simp add: default_inv_run_job)
next
  case (NewTerminalSettled a)
  have "default_inv (newTerminal_settled a s)"
    using assms(1)
    by (auto simp add: newTerminal_settled_def default_inv_def in_loop_def awaiting_default_def
        defaults_requested_def opened_def effects_create_widget
        split: layout_pc.splits option.splits sum.splits prod.splits
        dest!: arg_cong [where f = "\<lambda>x. effects (snd x)"])
  with NewTerminalSettled show ?thesis by simp
next
  case (Surface sev)
  have "grows plain (world s) (surface_step validateId sev (world s))"
    by (rule grows_mono [OF grows_surface_step]) (simp add: guard_effect_plain)
  then have "default_inv (s\<lparr>world := surface_step validateId sev (world s)\<rparr>)"
    by (intro default_inv_fields [OF assms(1)]) (simp_all add: grows_plain)
  with Surface show ?thesis by simp
next
  case (Enqueue f)
  have "default_inv (snd (queue f s))"
    by (rule default_inv_fields [OF assms(1)]) (simp_all add: queue_fields)
  with Enqueue show ?thesis by simp
qed

lemma default_inv_run:
  assumes "default_inv s" and "handlers_benign s"
    and "list_all (\<lambda>ev. \<not> is_enqueue ev) evs"
  shows "default_inv (run validateId evs s)"
  using assms
proof (induction evs arbitrary: s)
  case Nil
  then show ?case by simp
next
  case (Cons ev evs)
  have "default_inv (step validateId ev s)"
    using Cons.prems(1,2) by (rule default_inv_step)
  moreover have "handlers_benign (step validateId ev s)"
    using Cons.prems(2,3) by (intro handlers_benign_step) simp_all
  ultimately show ?case using Cons.IH Cons.prems(3) by simp
qed

lemma default_inv_System0: "default_inv System0"
  by (simp add: default_inv_def in_loop_def awaiting_default_def System0_def World0_def
      defaults_requested_def opened_def)


text \<open>
  Claim C9. When the loop over the tasks is over and \<^verbatim>\<open>terminals.all\<close> is empty, the
  reconciler resolves the layout and asks the shell for one terminal with the empty
  options; when there is a terminal it asks for none. The shell's answer to that request
  is a new widget that is not a task terminal; with it the reconciler calls
  \<^verbatim>\<open>start\<close> and then \<^verbatim>\<open>terminals.open\<close>, and returns. In every run of the
  contribution at most one default terminal is requested and at most that one is opened.
\<close>

theorem default_terminal_when_none:
  "(allTerminals (world s) = [] \<longrightarrow>
      effects (world (layout_finish s))
        = effects (world s) @ [LayoutResolved, NewTerminal default_options]
      \<and> layout (layout_finish s) = AwaitingDefaultTerminal None)
   \<and> (allTerminals (world s) \<noteq> [] \<longrightarrow>
      effects (world (layout_finish s)) = effects (world s) @ [LayoutResolved]
      \<and> layout (layout_finish s) = Returned)
   \<and> (layout s = AwaitingDefaultTerminal None \<longrightarrow>
      layout (newTerminal_settled (Inr bad) s)
        = AwaitingDefaultTerminal (Some (Inr (nextRef (world s))))
      \<and> allTerminals (world (newTerminal_settled (Inr bad) s))
        = allTerminals (world s) @ [nextRef (world s)]
      \<and> \<not> is_task_terminal (widgets (world (newTerminal_settled (Inr bad) s)) (nextRef (world s))))
   \<and> (layout s = AwaitingDefaultTerminal (Some (Inr t))
        \<and> \<not> is_task_terminal (widgets (world s) t) \<longrightarrow>
      effects (world (resume_layout s)) = effects (world s) @ [Start t None, OpenTerminal t]
      \<and> layout (resume_layout s) = Returned)
   \<and> (list_all (\<lambda>ev. \<not> is_enqueue ev) evs \<longrightarrow>
      count_list (effects (world (run validateId evs System0))) (NewTerminal default_options) \<le> 1
      \<and> length (filter is_open (effects (world (run validateId evs System0))))
          \<le> count_list (effects (world (run validateId evs System0)))
               (NewTerminal default_options))"
proof -
  have a: "allTerminals (world s) = [] \<longrightarrow>
      effects (world (layout_finish s))
        = effects (world s) @ [LayoutResolved, NewTerminal default_options]
      \<and> layout (layout_finish s) = AwaitingDefaultTerminal None"
    and b: "allTerminals (world s) \<noteq> [] \<longrightarrow>
      effects (world (layout_finish s)) = effects (world s) @ [LayoutResolved]
      \<and> layout (layout_finish s) = Returned"
    by (simp_all add: layout_finish_effects)
  have c: "layout s = AwaitingDefaultTerminal None \<longrightarrow>
      layout (newTerminal_settled (Inr bad) s)
        = AwaitingDefaultTerminal (Some (Inr (nextRef (world s))))
      \<and> allTerminals (world (newTerminal_settled (Inr bad) s))
        = allTerminals (world s) @ [nextRef (world s)]
      \<and> \<not> is_task_terminal (widgets (world (newTerminal_settled (Inr bad) s)) (nextRef (world s)))"
    by (simp add: newTerminal_settled_def create_widget_def Let_def onWillCreateWidget_def
        default_options_def is_task_terminal_def Widget0_def)
  have d: "layout s = AwaitingDefaultTerminal (Some (Inr t))
        \<and> \<not> is_task_terminal (widgets (world s) t) \<longrightarrow>
      effects (world (resume_layout s)) = effects (world s) @ [Start t None, OpenTerminal t]
      \<and> layout (resume_layout s) = Returned"
    by (simp add: resume_layout_def call_start_def surface_start_def emit_def)
  have e: "list_all (\<lambda>ev. \<not> is_enqueue ev) evs \<longrightarrow>
      count_list (effects (world (run validateId evs System0))) (NewTerminal default_options) \<le> 1
      \<and> length (filter is_open (effects (world (run validateId evs System0))))
          \<le> count_list (effects (world (run validateId evs System0)))
               (NewTerminal default_options)"
  proof
    assume "list_all (\<lambda>ev. \<not> is_enqueue ev) evs"
    with default_inv_System0 handlers_benign_System0
    have "default_inv (run validateId evs System0)" by (rule default_inv_run)
    then show "count_list (effects (world (run validateId evs System0)))
          (NewTerminal default_options) \<le> 1
      \<and> length (filter is_open (effects (world (run validateId evs System0))))
          \<le> count_list (effects (world (run validateId evs System0)))
               (NewTerminal default_options)"
      by (simp add: default_inv_def defaults_requested_def opened_def)
  qed
  from a b c d e show ?thesis by blast
qed

theorem default_terminal_when_none_witness:
  "list_all (\<lambda>ev. \<not> is_enqueue ev) empty_snapshot_run
   \<and> effects (world (run validateId0 empty_snapshot_run System0))
       = [LayoutResolved, NewTerminal default_options, ApplyBatch [], Start 0 None,
          OpenTerminal 0]
   \<and> allTerminals (world (run validateId0 empty_snapshot_run System0)) = [0]
   \<and> layout (run validateId0 empty_snapshot_run System0) = Returned
   \<and> count_list (effects (world (run validateId0 empty_snapshot_run System0)))
        (NewTerminal default_options) = 1"
proof -
  have 1: "list_all (\<lambda>ev. \<not> is_enqueue ev) empty_snapshot_run"
    by (simp add: empty_snapshot_run_def)
  have 2: "effects (world (run validateId0 empty_snapshot_run System0))
       = [LayoutResolved, NewTerminal default_options, ApplyBatch [], Start 0 None,
          OpenTerminal 0]"
    by (simp add: empty_snapshot_run_def system_defs world_defs)
  have 3: "allTerminals (world (run validateId0 empty_snapshot_run System0)) = [0]"
    by (simp add: empty_snapshot_run_def system_defs world_defs)
  have 4: "layout (run validateId0 empty_snapshot_run System0) = Returned"
    by (simp add: empty_snapshot_run_def system_defs world_defs)
  from default_terminal_when_none [where validateId = validateId0 and evs = empty_snapshot_run
      and s = System0]
    1 2 3 4
  show ?thesis by (simp add: default_options_def)
qed

section \<open>The loop of the initial layout\<close>




lemma requested_options_eq:
  "task_presentation tk = Some p \<Longrightarrow> task_terminal_options tk p = requested_options tk"
  by (simp add: task_terminal_options_def requested_options_def)












end
